theory Spec2Isabelle
  imports Main "HOL-Library.Word"
begin

section \<open>Data model of \<open>MemTrackerLimiter\<close>\<close>

text \<open>
  Source: \<^verbatim>\<open>be/src/runtime/memory/mem_tracker_limiter.h\<close>.

  A \<^verbatim>\<open>MemTrackerLimiter\<close> object is addressed by a \<open>tracker_id\<close> (the pointer stored
  in \<^verbatim>\<open>_all_ancestors\<close>). The fields that are fixed at construction (\<^verbatim>\<open>_label\<close>,
  \<^verbatim>\<open>_limit\<close>, \<^verbatim>\<open>_all_ancestors\<close>, \<^verbatim>\<open>_limited_ancestors\<close>) and \<^verbatim>\<open>_gc_functions\<close> are the
  record \<open>tracker\<close>;
  the two atomic counters every operation mutates (\<^verbatim>\<open>_consumption\<close> and
  \<^verbatim>\<open>_untracked_mem\<close>) live in an explicit store \<open>mem\<close>, indexed by tracker, because
  several chains share ancestors. \<^verbatim>\<open>int64_t\<close> is a 64-bit word read as two's
  complement (\<open>sint\<close>); \<open>+\<close> and unary \<open>-\<close> wrap around.
\<close>

type_synonym int64 = "64 word"

type_synonym tracker_id = nat

record mem =
  consumption :: "tracker_id \<Rightarrow> int64"
  untracked_mem :: "tracker_id \<Rightarrow> int64"

text \<open>
  \<^verbatim>\<open>GcFunction = std::function<void(int64_t bytes_to_free)>\<close>: a callback may change any
  counter.
\<close>

type_synonym gc_function = "int64 \<Rightarrow> mem \<Rightarrow> mem"

record tracker =
  label :: string
  limit :: int64
  all_ancestors :: "tracker_id list"
  limited_ancestors :: "tracker_id list"
  gc_functions :: "gc_function list"

text \<open>
  The environment of a call: the tracker objects, the two readings of
  \<^verbatim>\<open>check_sys_mem_info\<close> (\<^verbatim>\<open>PerfCounters::get_vm_rss()\<close> and \<^verbatim>\<open>MemInfo::mem_limit()\<close>)
  and the configuration constant \<^verbatim>\<open>config::mem_tracker_consume_min_size_bytes\<close>. The
  three numbers are declared outside the file; they are parameters here.
\<close>

record env =
  trackers :: "tracker_id \<Rightarrow> tracker"
  vm_rss :: int64
  mem_limit :: int64
  mem_tracker_consume_min_size_bytes :: int64

text \<open>
  \<^verbatim>\<open>Status\<close>: \<open>Inr ()\<close> is \<^verbatim>\<open>Status::OK()\<close>, \<open>Inl e\<close> a \<^verbatim>\<open>MemoryLimitExceeded\<close> status.
  \<open>ProcessMemoryExceeded rss lim bytes\<close> is the status built by \<^verbatim>\<open>check_sys_mem_info\<close>
  (its message holds these three numbers and no tracker);
  \<open>TrackerLimitExceeded lbl lim used bytes\<close> is the status of a tracker whose ceiling
  could not be met (label, limit, consumption, requested size).
\<close>

datatype error =
  ProcessMemoryExceeded int64 int64 int64
| TrackerLimitExceeded string int64 int64 int64

type_synonym status = "error + unit"

text \<open>The tracker an error names, if it names one.\<close>

fun exceeded_tracker :: "error \<Rightarrow> string option" where
  "exceeded_tracker (ProcessMemoryExceeded rss lim bytes) = None"
| "exceeded_tracker (TrackerLimitExceeded lbl lim used bytes) = Some lbl"

text \<open>
  \<^verbatim>\<open>Status try_gc_memory(int64_t bytes)\<close> is declared in the header and defined
  elsewhere; the operations below take it as the parameter \<open>gc\<close>, called as
  \<open>gc tracker bytes m\<close> and returning the status and the store it leaves.
\<close>

type_synonym try_gc = "tracker_id \<Rightarrow> int64 \<Rightarrow> mem \<Rightarrow> status \<times> mem"

section \<open>The consumption counter\<close>

text \<open>
  Modelled from the spec: the class \<^verbatim>\<open>MemCounter\<close> behind \<^verbatim>\<open>_consumption\<close> is declared in
  \<^verbatim>\<open>runtime/memory/mem_tracker.h\<close>, which is not among the sources. Section 4.1 of the
  spec: \<^verbatim>\<open>current_value()\<close> is an atomic read; \<^verbatim>\<open>add(delta)\<close> is an unconditional atomic
  add; \<^verbatim>\<open>try_add(delta, ceiling)\<close> adds \<open>delta\<close> only if \<open>current + delta < ceiling\<close>
  and otherwise returns false without mutating. The functions act on the counter of
  tracker \<open>t\<close> in the store; \<open>None\<close> is \<^verbatim>\<open>false\<close>.
\<close>

definition current_value :: "tracker_id \<Rightarrow> mem \<Rightarrow> int64" where
  "current_value t m = consumption m t"

text \<open>
  Modelled from the spec: \<^verbatim>\<open>MemCounter::add\<close>, the unconditional atomic add of section 4.1.
\<close>

definition add :: "tracker_id \<Rightarrow> int64 \<Rightarrow> mem \<Rightarrow> mem" where
  "add t delta m = m\<lparr>consumption := (consumption m)(t := consumption m t + delta)\<rparr>"

text \<open>
  Modelled from the spec: \<^verbatim>\<open>MemCounter::try_add\<close>, which section 4.1 describes as adding
  \<open>delta\<close> only if \<open>current + delta < ceiling\<close>. The sum is taken on 64 bits.
\<close>

definition try_add :: "tracker_id \<Rightarrow> int64 \<Rightarrow> int64 \<Rightarrow> mem \<Rightarrow> mem option" where
  "try_add t delta ceiling m =
     (if sint (current_value t m + delta) < sint ceiling then Some (add t delta m) else None)"

section \<open>The operations of the header\<close>

text \<open>\<^verbatim>\<open>has_limit\<close> and \<^verbatim>\<open>limit_exceeded\<close>.\<close>

definition has_limit :: "env \<Rightarrow> tracker_id \<Rightarrow> bool" where
  "has_limit E t = (0 \<le> sint (limit (trackers E t)))"

definition limit_exceeded :: "env \<Rightarrow> tracker_id \<Rightarrow> mem \<Rightarrow> bool" where
  "limit_exceeded E t m =
     (0 \<le> sint (limit (trackers E t)) \<and> sint (limit (trackers E t)) < sint (consumption m t))"

text \<open>
  \<^verbatim>\<open>check_sys_mem_info\<close>: fails when \<^verbatim>\<open>get_vm_rss() + bytes >= mem_limit()\<close>. The call of
  \<^verbatim>\<open>print_log_usage\<close> on that path only writes the log.
\<close>

definition check_sys_mem_info :: "env \<Rightarrow> int64 \<Rightarrow> status" where
  "check_sys_mem_info E bytes =
     (if sint (mem_limit E) \<le> sint (vm_rss E + bytes)
      then Inl (ProcessMemoryExceeded (vm_rss E) (mem_limit E) bytes)
      else Inr ())"

text \<open>
  \<^verbatim>\<open>consume\<close>: nothing for \<open>bytes = 0\<close>, otherwise \<^verbatim>\<open>add(bytes)\<close> on every entry of
  \<^verbatim>\<open>_all_ancestors\<close>, front to back. \<^verbatim>\<open>release(bytes)\<close> is \<^verbatim>\<open>consume(-bytes)\<close>.
\<close>

definition consume :: "env \<Rightarrow> tracker_id \<Rightarrow> int64 \<Rightarrow> mem \<Rightarrow> mem" where
  "consume E n bytes m =
     (if bytes = 0 then m
      else fold (\<lambda>tracker. add tracker bytes) (all_ancestors (trackers E n)) m)"

definition release :: "env \<Rightarrow> tracker_id \<Rightarrow> int64 \<Rightarrow> mem \<Rightarrow> mem" where
  "release E n bytes m = consume E n (- bytes) m"

text \<open>
  \<^verbatim>\<open>add_untracked_mem\<close>: \<^verbatim>\<open>_untracked_mem += bytes\<close>, then, when
  \<^verbatim>\<open>std::abs(_untracked_mem) >= config::mem_tracker_consume_min_size_bytes\<close>, the result
  is \<^verbatim>\<open>_untracked_mem.exchange(0)\<close>, and 0 otherwise. \<open>abs64\<close> is \<^verbatim>\<open>std::abs\<close> on the
  wrapped representation. The model is the sequential reading: no other thread touches
  the accumulator between the three atomic steps.
\<close>

definition abs64 :: "int64 \<Rightarrow> int64" where
  "abs64 x = (if sint x < 0 then - x else x)"

definition add_untracked_mem :: "env \<Rightarrow> tracker_id \<Rightarrow> int64 \<Rightarrow> mem \<Rightarrow> int64 \<times> mem" where
  "add_untracked_mem E n bytes m =
     (let m1 = m\<lparr>untracked_mem := (untracked_mem m)(n := untracked_mem m n + bytes)\<rparr>
      in if sint (mem_tracker_consume_min_size_bytes E) \<le> sint (abs64 (untracked_mem m1 n))
         then (untracked_mem m1 n, m1\<lparr>untracked_mem := (untracked_mem m1)(n := 0)\<rparr>)
         else (0, m1))"

text \<open>
  \<^verbatim>\<open>cache_consume_local\<close>: the loop over \<^verbatim>\<open>_all_ancestors\<close> returns at the first tracker
  whose label is \<^verbatim>\<open>"Process"\<close> and calls \<^verbatim>\<open>add(bytes)\<close> on the ones before it.
\<close>

fun cache_consume_walk :: "env \<Rightarrow> tracker_id list \<Rightarrow> int64 \<Rightarrow> mem \<Rightarrow> mem" where
  "cache_consume_walk E [] bytes m = m"
| "cache_consume_walk E (tracker # rest) bytes m =
     (if label (trackers E tracker) = ''Process'' then m
      else cache_consume_walk E rest bytes (add tracker bytes m))"

definition cache_consume_local :: "env \<Rightarrow> tracker_id \<Rightarrow> int64 \<Rightarrow> mem \<Rightarrow> mem" where
  "cache_consume_local E n bytes m =
     (if bytes = 0 then m
      else (case add_untracked_mem E n bytes m of
              (consume_bytes, m1) \<Rightarrow>
                if consume_bytes \<noteq> 0
                then cache_consume_walk E (all_ancestors (trackers E n)) bytes m1
                else m1))"

text \<open>\<^verbatim>\<open>transfer_to\<close>: a local release here and a local consume at \<open>dst\<close>.\<close>

definition transfer_to :: "env \<Rightarrow> tracker_id \<Rightarrow> int64 \<Rightarrow> tracker_id \<Rightarrow> mem \<Rightarrow> mem" where
  "transfer_to E n sz dst m = cache_consume_local E dst sz (cache_consume_local E n (- sz) m)"

text \<open>
  \<^verbatim>\<open>try_consume\<close>. The inner \<^verbatim>\<open>while (true)\<close> of a limited tracker is \<open>try_add_loop\<close>: it
  leaves with success when \<^verbatim>\<open>try_add\<close> succeeds, with the status of \<^verbatim>\<open>try_gc_memory\<close> when
  that fails, and goes round again otherwise; a loop that never leaves has the value
  \<open>None\<close>. The outer \<^verbatim>\<open>for (i = size - 1; i >= 0; --i)\<close> is \<open>try_consume_walk\<close>, whose
  argument \<open>Suc i\<close> stands for the loop variable \<open>i\<close>. \<open>rollback\<close> is the loop
  \<^verbatim>\<open>for (j = size - 1; j > i; --j) add(-bytes)\<close>.
\<close>

partial_function (option) try_add_loop ::
  "try_gc \<Rightarrow> env \<Rightarrow> tracker_id \<Rightarrow> int64 \<Rightarrow> mem \<Rightarrow> (status \<times> mem) option" where
  "try_add_loop gc E tracker bytes m =
     (case try_add tracker bytes (limit (trackers E tracker)) m of
        Some m' \<Rightarrow> Some (Inr (), m')
      | None \<Rightarrow>
          (case gc tracker bytes m of
             (Inl st, m1) \<Rightarrow> Some (Inl st, m1)
           | (Inr _, m1) \<Rightarrow> try_add_loop gc E tracker bytes m1))"

definition rollback :: "tracker_id list \<Rightarrow> int64 \<Rightarrow> nat \<Rightarrow> mem \<Rightarrow> mem" where
  "rollback anc bytes i m =
     fold (\<lambda>j. add (anc ! j) (- bytes)) (rev [Suc i ..< length anc]) m"

fun try_consume_walk ::
  "try_gc \<Rightarrow> env \<Rightarrow> tracker_id list \<Rightarrow> int64 \<Rightarrow> nat \<Rightarrow> mem \<Rightarrow> (status \<times> mem) option" where
  "try_consume_walk gc E anc bytes 0 m = Some (Inr (), m)"
| "try_consume_walk gc E anc bytes (Suc i) m =
     (if sint (limit (trackers E (anc ! i))) < 0 \<or> label (trackers E (anc ! i)) = ''Process''
      then try_consume_walk gc E anc bytes i (add (anc ! i) bytes m)
      else (case try_add_loop gc E (anc ! i) bytes m of
              None \<Rightarrow> None
            | Some (Inl st, m1) \<Rightarrow> Some (Inl st, rollback anc bytes i m1)
            | Some (Inr _, m1) \<Rightarrow> try_consume_walk gc E anc bytes i m1))"

definition try_consume ::
  "try_gc \<Rightarrow> env \<Rightarrow> tracker_id \<Rightarrow> int64 \<Rightarrow> mem \<Rightarrow> (status \<times> mem) option" where
  "try_consume gc E n bytes m =
     (if sint bytes \<le> 0 then Some (Inr (), release E n (- bytes) m)
      else (case check_sys_mem_info E bytes of
              Inl st \<Rightarrow> Some (Inl st, m)
            | Inr _ \<Rightarrow>
                try_consume_walk gc E (all_ancestors (trackers E n)) bytes
                  (length (all_ancestors (trackers E n))) m))"




text \<open>\<^verbatim>\<open>add_gc_function\<close>: \<^verbatim>\<open>_gc_functions.push_back(f)\<close>.\<close>

definition add_gc_function :: "env \<Rightarrow> tracker_id \<Rightarrow> gc_function \<Rightarrow> env" where
  "add_gc_function E t f =
     E\<lparr>trackers := (trackers E)
          (t := (trackers E t)\<lparr>gc_functions := gc_functions (trackers E t) @ [f]\<rparr>)\<rparr>"

section \<open>The GC protocol\<close>

text \<open>
  Modelled from the spec: \<^verbatim>\<open>try_gc_memory\<close> and \<^verbatim>\<open>gc_memory\<close> are defined in
  \<^verbatim>\<open>mem_tracker_limiter.cpp\<close>, which is not among the sources. Section 4.5 of the spec:
  the registered callbacks are invoked in registration order, each given a number of
  bytes to try to free, until what was freed is sufficient or all callbacks have been
  tried; consumption is then compared with the limit again; the result is success if
  the limit is no longer exceeded and a limit-exceeded error otherwise. Sections 4.3
  and 4.6 fix what sufficient means for the two callers: the request fits, that is
  \<open>current_value + bytes < limit\<close>, the test both callers repeat after a pass. Each
  callback is asked for \<open>bytes\<close> (section 4.3: the protocol is invoked requesting that
  \<open>bytes\<close> be freed). The error carries the tracker's label, limit, consumption and the
  requested size (section 7).
\<close>

fun gc_pass :: "gc_function list \<Rightarrow> tracker_id \<Rightarrow> int64 \<Rightarrow> int64 \<Rightarrow> mem \<Rightarrow> mem" where
  "gc_pass [] t lim bytes m = m"
| "gc_pass (f # fs) t lim bytes m =
     (if sint (current_value t (f bytes m) + bytes) < sint lim then f bytes m
      else gc_pass fs t lim bytes (f bytes m))"

text \<open>
  Modelled from the spec: \<^verbatim>\<open>MemTrackerLimiter::try_gc_memory\<close> (section 4.5), one pass over
  the callbacks of the tracker and the comparison with its limit after the pass.
\<close>

definition try_gc_memory :: "env \<Rightarrow> try_gc" where
  "try_gc_memory E t bytes m =
     (if sint (current_value t (gc_pass (gc_functions (trackers E t)) t (limit (trackers E t)) bytes m)
                + bytes) < sint (limit (trackers E t))
      then (Inr (), gc_pass (gc_functions (trackers E t)) t (limit (trackers E t)) bytes m)
      else (Inl (TrackerLimitExceeded (label (trackers E t)) (limit (trackers E t))
                   (current_value t
                      (gc_pass (gc_functions (trackers E t)) t (limit (trackers E t)) bytes m))
                   bytes),
            gc_pass (gc_functions (trackers E t)) t (limit (trackers E t)) bytes m))"

section \<open>Sequences of calls\<close>

text \<open>
  Calls made one after the other on the same store: the accounting operations that cannot
  fail, and repeated \<^verbatim>\<open>add_untracked_mem\<close> on one tracker with the values it returned.
\<close>

datatype op =
  Consume tracker_id int64
| Release tracker_id int64
| CacheConsumeLocal tracker_id int64
| TransferTo tracker_id int64 tracker_id

fun apply_op :: "env \<Rightarrow> op \<Rightarrow> mem \<Rightarrow> mem" where
  "apply_op E (Consume n bytes) m = consume E n bytes m"
| "apply_op E (Release n bytes) m = release E n bytes m"
| "apply_op E (CacheConsumeLocal n bytes) m = cache_consume_local E n bytes m"
| "apply_op E (TransferTo n sz dst) m = transfer_to E n sz dst m"

text \<open>
  What a call adds to the counter of \<open>r\<close> when it is a direct \<^verbatim>\<open>consume\<close> or
  \<^verbatim>\<open>release\<close>: \<open>bytes\<close> once for every occurrence of \<open>r\<close> in the caller's chain.
\<close>

fun direct_delta :: "env \<Rightarrow> tracker_id \<Rightarrow> op \<Rightarrow> int64" where
  "direct_delta E r (Consume n bytes) =
     of_nat (count_list (all_ancestors (trackers E n)) r) * bytes"
| "direct_delta E r (Release n bytes) =
     of_nat (count_list (all_ancestors (trackers E n)) r) * (- bytes)"
| "direct_delta E r (CacheConsumeLocal n bytes) = 0"
| "direct_delta E r (TransferTo n sz dst) = 0"

fun add_untracked_mem_seq ::
  "env \<Rightarrow> tracker_id \<Rightarrow> int64 list \<Rightarrow> mem \<Rightarrow> int64 list \<times> mem" where
  "add_untracked_mem_seq E n [] m = ([], m)"
| "add_untracked_mem_seq E n (bytes # rest) m =
     (case add_untracked_mem E n bytes m of
        (r, m1) \<Rightarrow>
          (case add_untracked_mem_seq E n rest m1 of (rs, m2) \<Rightarrow> (r # rs, m2)))"

text \<open>
  Repeated \<^verbatim>\<open>try_consume\<close> on one tracker: the statuses in call order and the store left by
  the last call; \<open>None\<close> when a call does not return.
\<close>

fun try_consume_seq ::
  "try_gc \<Rightarrow> env \<Rightarrow> tracker_id \<Rightarrow> int64 list \<Rightarrow> mem \<Rightarrow> (status list \<times> mem) option" where
  "try_consume_seq gc E n [] m = Some ([], m)"
| "try_consume_seq gc E n (bytes # rest) m =
     (case try_consume gc E n bytes m of
        None \<Rightarrow> None
      | Some (st, m1) \<Rightarrow>
          (case try_consume_seq gc E n rest m1 of
             None \<Rightarrow> None
           | Some (sts, m2) \<Rightarrow> Some (st # sts, m2)))"

text \<open>
  The limit in the words of the spec: a request succeeds, and is added, as long as the
  resulting consumption stays below the limit \<open>L\<close>; otherwise it fails and consumption
  stays where it is. \<open>limit_outcomes L c bs\<close> gives, for the requests \<open>bs\<close> made at
  consumption \<open>c\<close>, which of them succeed and the consumption after the last one.
\<close>

fun limit_outcomes :: "int64 \<Rightarrow> int64 \<Rightarrow> int64 list \<Rightarrow> bool list \<times> int64" where
  "limit_outcomes L c [] = ([], c)"
| "limit_outcomes L c (b # bs) =
     (if sint (c + b) < sint L
      then (True # fst (limit_outcomes L (c + b) bs), snd (limit_outcomes L (c + b) bs))
      else (False # fst (limit_outcomes L c bs), snd (limit_outcomes L c bs)))"


section \<open>A three-level tree\<close>

text \<open>
  The tree of the spec's example: tracker 0 is the process root (label \<^verbatim>\<open>"Process"\<close>,
  no limit), tracker 1 a query tracker with limit 1000, tracker 2 an instance tracker
  without limit. Resident memory is 0 and the physical ceiling far away; the flush
  threshold of the local batching is 100.
\<close>

definition example_trackers :: "tracker_id \<Rightarrow> tracker" where
  "example_trackers t =
     (if t = 0 then
        \<lparr>label = ''Process'', limit = - 1, all_ancestors = [0], limited_ancestors = [],
         gc_functions = []\<rparr>
      else if t = 1 then
        \<lparr>label = ''query'', limit = 1000, all_ancestors = [1, 0], limited_ancestors = [1],
         gc_functions = []\<rparr>
      else
        \<lparr>label = ''instance'', limit = - 1, all_ancestors = [2, 1, 0],
         limited_ancestors = [1], gc_functions = []\<rparr>)"

definition example_env :: env where
  "example_env =
     \<lparr>trackers = example_trackers, vm_rss = 0, mem_limit = 1000000000,
      mem_tracker_consume_min_size_bytes = 100\<rparr>"

definition zero_mem :: mem where
  "zero_mem = \<lparr>consumption = (\<lambda>t. 0), untracked_mem = (\<lambda>t. 0)\<rparr>"

text \<open>A reclaim callback that frees 450 bytes of the query tracker whenever it is invoked.\<close>

definition free_450 :: gc_function where
  "free_450 bytes_to_free m = add 1 (- 450) m"

text \<open>The example tree with the callback registered on the query tracker.\<close>

definition gc_env :: env where
  "gc_env = add_gc_function example_env 1 free_450"

text \<open>
  The example tree with a limit of 1000 on the process root, and the example tree with
  the query tracker (limit 1000, not the root) labelled \<^verbatim>\<open>"Process"\<close>.
\<close>

definition capped_process_env :: env where
  "capped_process_env =
     example_env\<lparr>trackers := example_trackers(0 := (example_trackers 0)\<lparr>limit := 1000\<rparr>)\<rparr>"

definition process_query_env :: env where
  "process_query_env =
     example_env\<lparr>trackers := example_trackers(1 := (example_trackers 1)\<lparr>label := ''Process''\<rparr>)\<rparr>"


section \<open>What a walk over a chain does\<close>

text \<open>
  A tracker is \<open>enforced\<close> when \<^verbatim>\<open>try_consume\<close> takes the \<^verbatim>\<open>try_add\<close> branch for it: the
  negation of the test \<^verbatim>\<open>limit() < 0 || label() == "Process"\<close>. A request \<open>fits\<close> a
  tracker when \<^verbatim>\<open>current_value() + bytes < limit()\<close>, the test of \<^verbatim>\<open>check_limit\<close> and of
  \<^verbatim>\<open>try_add\<close>.
\<close>

definition enforced :: "env \<Rightarrow> tracker_id \<Rightarrow> bool" where
  "enforced E t = (\<not> (sint (limit (trackers E t)) < 0 \<or> label (trackers E t) = ''Process''))"

definition fits :: "env \<Rightarrow> tracker_id \<Rightarrow> int64 \<Rightarrow> mem \<Rightarrow> bool" where
  "fits E t bytes m = (sint (current_value t m + bytes) < sint (limit (trackers E t)))"

text \<open>
  \<open>gc_retries gc E t bytes m m'\<close>: from \<open>m\<close>, zero or more rounds of the inner loop, each
  entered because the request does not fit and each a \<^verbatim>\<open>try_gc_memory\<close> of \<open>t\<close> that
  returned OK, lead to \<open>m'\<close>.

  \<open>charged gc E bytes ts m m'\<close>: the trackers of \<open>ts\<close> are visited in order; an exempt
  tracker receives \<^verbatim>\<open>add(bytes)\<close> at once, an enforced one after the GC rounds that make
  the request fit. Every tracker of \<open>ts\<close> receives exactly one add of \<open>bytes\<close>.

  \<open>checked gc E bytes ts m m'\<close>: the same visit without any add.
\<close>

inductive gc_retries :: "try_gc \<Rightarrow> env \<Rightarrow> tracker_id \<Rightarrow> int64 \<Rightarrow> mem \<Rightarrow> mem \<Rightarrow> bool"
  for gc :: try_gc and E :: env and t :: tracker_id and bytes :: int64 where
  gc_retries_none: "gc_retries gc E t bytes m m"
| gc_retries_pass:
    "\<not> fits E t bytes m \<Longrightarrow> gc t bytes m = (Inr (), m1) \<Longrightarrow> gc_retries gc E t bytes m1 m2 \<Longrightarrow>
     gc_retries gc E t bytes m m2"

inductive charged :: "try_gc \<Rightarrow> env \<Rightarrow> int64 \<Rightarrow> tracker_id list \<Rightarrow> mem \<Rightarrow> mem \<Rightarrow> bool"
  for gc :: try_gc and E :: env and bytes :: int64 where
  charged_none: "charged gc E bytes [] m m"
| charged_exempt:
    "\<not> enforced E t \<Longrightarrow> charged gc E bytes ts (add t bytes m) m2 \<Longrightarrow>
     charged gc E bytes (t # ts) m m2"
| charged_enforced:
    "enforced E t \<Longrightarrow> gc_retries gc E t bytes m m1 \<Longrightarrow> fits E t bytes m1 \<Longrightarrow>
     charged gc E bytes ts (add t bytes m1) m2 \<Longrightarrow>
     charged gc E bytes (t # ts) m m2"

inductive checked :: "try_gc \<Rightarrow> env \<Rightarrow> int64 \<Rightarrow> tracker_id list \<Rightarrow> mem \<Rightarrow> mem \<Rightarrow> bool"
  for gc :: try_gc and E :: env and bytes :: int64 where
  checked_none: "checked gc E bytes [] m m"
| checked_next:
    "gc_retries gc E t bytes m m1 \<Longrightarrow> fits E t bytes m1 \<Longrightarrow> checked gc E bytes ts m1 m2 \<Longrightarrow>
     checked gc E bytes (t # ts) m m2"

text \<open>
  The three relations compute the final store from the initial one: the modes below give
  them code equations.
\<close>

code_pred (modes: i \<Rightarrow> i \<Rightarrow> i \<Rightarrow> i \<Rightarrow> i \<Rightarrow> o \<Rightarrow> bool) gc_retries .

code_pred (modes: i \<Rightarrow> i \<Rightarrow> i \<Rightarrow> i \<Rightarrow> i \<Rightarrow> o \<Rightarrow> bool) charged .

code_pred (modes: i \<Rightarrow> i \<Rightarrow> i \<Rightarrow> i \<Rightarrow> i \<Rightarrow> o \<Rightarrow> bool) checked .

text \<open>The example tree on a machine whose resident memory is 100 bytes from the ceiling.\<close>

definition loaded_env :: env where
  "loaded_env = example_env\<lparr>vm_rss := 999999900\<rparr>"

text \<open>The example tree with the flush threshold of the local batching set to 0.\<close>

definition unbatched_env :: env where
  "unbatched_env = example_env\<lparr>mem_tracker_consume_min_size_bytes := 0\<rparr>"


section \<open>Counters under unconditional adds\<close>

lemmas example_defs = example_env_def example_trackers_def zero_mem_def

lemma consumption_add:
  "consumption (add t d m) u = (if u = t then consumption m t + d else consumption m u)"
  by (simp add: add_def)

lemma untracked_mem_add: "untracked_mem (add t d m) = untracked_mem m"
  by (simp add: add_def)

lemma consumption_fold_add:
  "consumption (fold (\<lambda>t. add t d) ts m) u = consumption m u + of_nat (count_list ts u) * d"
  by (induction ts arbitrary: m) (simp_all add: consumption_add algebra_simps)

lemma untracked_mem_fold_add: "untracked_mem (fold (\<lambda>t. add t d) ts m) = untracked_mem m"
  by (induction ts arbitrary: m) (simp_all add: untracked_mem_add)

lemma consumption_consume:
  "consumption (consume E n bytes m) r =
   consumption m r + of_nat (count_list (all_ancestors (trackers E n)) r) * bytes"
  by (simp add: consume_def consumption_fold_add)

section \<open>Non-positive requests\<close>

text \<open>
  C8. For \<open>bytes \<le> 0\<close>, \<^verbatim>\<open>try_consume(bytes)\<close> returns OK with the store of
  \<^verbatim>\<open>release(-bytes)\<close>, which is that of \<^verbatim>\<open>consume(bytes)\<close>: every occurrence of a tracker in
  \<^verbatim>\<open>_all_ancestors\<close> adds \<open>bytes\<close> to its counter, the accumulators are untouched, and
  nothing changes for \<open>bytes = 0\<close>. The result is the same for every \<^verbatim>\<open>try_gc_memory\<close> and
  every environment with the same chain, whatever its resident memory, physical ceiling
  and limits: neither \<^verbatim>\<open>check_sys_mem_info\<close> nor a limit is consulted. \<^verbatim>\<open>consume\<close> and
  \<^verbatim>\<open>release\<close> return a store and no status: they cannot fail.
\<close>

theorem try_consume_nonpositive:
  assumes "sint bytes \<le> 0"
  shows "try_consume gc E n bytes m = Some (Inr (), release E n (- bytes) m)
       \<and> release E n (- bytes) m = consume E n bytes m
       \<and> (\<forall>t. consumption (consume E n bytes m) t =
               consumption m t + of_nat (count_list (all_ancestors (trackers E n)) t) * bytes)
       \<and> untracked_mem (consume E n bytes m) = untracked_mem m
       \<and> (bytes = 0 \<longrightarrow> consume E n bytes m = m)
       \<and> (\<forall>gc' E'. all_ancestors (trackers E' n) = all_ancestors (trackers E n) \<longrightarrow>
              try_consume gc' E' n bytes m = try_consume gc E n bytes m)"
  using assms
  by (simp add: try_consume_def release_def consume_def consumption_fold_add
      untracked_mem_fold_add)

theorem try_consume_nonpositive_witness:
  "sint (- 5 :: int64) \<le> 0
   \<and> try_consume (try_gc_memory example_env) example_env 2 (- 5) zero_mem
       = Some (Inr (), release example_env 2 (- (- 5)) zero_mem)
   \<and> consumption (consume example_env 2 (- 5) zero_mem) 1 = - 5"
  using try_consume_nonpositive [of "- 5" "try_gc_memory example_env" example_env 2 zero_mem]
  by (simp add: example_defs)

section \<open>The process tracker and the batched path\<close>

lemma cache_consume_walk_process:
  "label (trackers E r) = ''Process'' \<Longrightarrow>
   consumption (cache_consume_walk E ts bytes m) r = consumption m r"
  by (induction ts arbitrary: m) (auto simp: consumption_add)

lemma consumption_add_untracked_mem:
  "consumption (snd (add_untracked_mem E n bytes m)) = consumption m"
  by (simp add: add_untracked_mem_def Let_def)

lemma cache_consume_local_process:
  "label (trackers E r) = ''Process'' \<Longrightarrow>
   consumption (cache_consume_local E n bytes m) r = consumption m r"
  using consumption_add_untracked_mem [of E n bytes m]
  by (auto simp: cache_consume_local_def cache_consume_walk_process split: prod.splits)

lemma apply_op_process:
  "label (trackers E r) = ''Process'' \<Longrightarrow>
   consumption (apply_op E x m) r = consumption m r + direct_delta E r x"
  by (cases x)
    (simp_all add: consumption_consume release_def transfer_to_def cache_consume_local_process)

text \<open>
  C4. Let \<open>r\<close> be the process tracker, the tracker labelled \<^verbatim>\<open>"Process"\<close>. No
  \<^verbatim>\<open>cache_consume_local\<close> call, on any tracker and with any argument, changes the counter
  of \<open>r\<close>; and after any sequence of \<^verbatim>\<open>consume\<close>, \<^verbatim>\<open>release\<close>, \<^verbatim>\<open>cache_consume_local\<close> and
  \<^verbatim>\<open>transfer_to\<close> calls the counter of \<open>r\<close> has changed by the sum of the direct
  \<^verbatim>\<open>consume\<close> and \<^verbatim>\<open>release\<close> calls whose chains hold \<open>r\<close>, and by nothing else.
\<close>

theorem process_root_isolation:
  assumes "label (trackers E r) = ''Process''"
  shows "consumption (cache_consume_local E n bytes m) r = consumption m r
       \<and> consumption (fold (apply_op E) ops m) r =
           consumption m r + sum_list (map (direct_delta E r) ops)"
proof
  show "consumption (cache_consume_local E n bytes m) r = consumption m r"
    using assms by (rule cache_consume_local_process)
  show "consumption (fold (apply_op E) ops m) r =
          consumption m r + sum_list (map (direct_delta E r) ops)"
    using assms
    by (induction ops arbitrary: m) (simp_all add: apply_op_process add.assoc)
qed

theorem process_root_isolation_witness:
  "label (trackers example_env 0) = ''Process''
   \<and> consumption (cache_consume_local example_env 2 150 zero_mem) 0 = 0
   \<and> consumption (fold (apply_op example_env)
         [Consume 2 600, CacheConsumeLocal 2 150, Release 2 100, TransferTo 2 200 1]
         zero_mem) 0 = 500"
  using process_root_isolation [of example_env 0 2 150 zero_mem
      "[Consume 2 600, CacheConsumeLocal 2 150, Release 2 100, TransferTo 2 200 1]"]
  by (simp add: example_defs)

text \<open>
  C3. What the code does when a call makes the accumulator reach the threshold. In the
  example tree (threshold 100) the instance tracker first batches 60 bytes: nothing is
  flushed. A second call with 50 bytes brings the accumulator to 110, which
  \<^verbatim>\<open>add_untracked_mem\<close> returns and resets to 0; the loop then calls \<^verbatim>\<open>add(bytes)\<close>, so the
  instance and the query tracker receive 50, the argument of the call, and not the 110
  that were drained. The process tracker receives nothing.
\<close>

theorem cache_consume_local_flush_adds_bytes:
  "untracked_mem (cache_consume_local example_env 2 60 zero_mem) 2 = 60
   \<and> consumption (cache_consume_local example_env 2 60 zero_mem) 2 = 0
   \<and> fst (add_untracked_mem example_env 2 50
            (cache_consume_local example_env 2 60 zero_mem)) = 110
   \<and> untracked_mem (cache_consume_local example_env 2 50
            (cache_consume_local example_env 2 60 zero_mem)) 2 = 0
   \<and> consumption (cache_consume_local example_env 2 50
            (cache_consume_local example_env 2 60 zero_mem)) 2 = 50
   \<and> consumption (cache_consume_local example_env 2 50
            (cache_consume_local example_env 2 60 zero_mem)) 1 = 50
   \<and> consumption (cache_consume_local example_env 2 50
            (cache_consume_local example_env 2 60 zero_mem)) 0 = 0"
  by (simp add: example_defs cache_consume_local_def add_untracked_mem_def abs64_def add_def)

section \<open>The untracked accumulator\<close>

lemma abs64_zero: "abs64 0 = 0"
  by (simp add: abs64_def)

text \<open>
  What \<open>abs64\<close> computes, read as a signed number: the absolute value, except at the
  least 64-bit value, whose negation wraps around to itself.
\<close>

lemma sint_abs64:
  "sint (abs64 x) = (if sint x = - (2 ^ 63) then - (2 ^ 63) else \<bar>sint x\<bar>)"
proof (cases "sint x < 0")
  case False
  then show ?thesis by (simp add: abs64_def)
next
  case True
  have lo: "- (2 ^ 63) \<le> sint x" using sint_ge [of x] by simp
  have neg: "sint (- x) = signed_take_bit 63 (- sint x)"
    by (simp add: sint_word_ariths)
  show ?thesis
  proof (cases "sint x = - (2 ^ 63)")
    case min: True
    then have "sint (- x) = signed_take_bit 63 (2 ^ 63 :: int)"
      using neg by simp
    also have "\<dots> = - (2 ^ 63)"
      by (simp add: signed_take_bit_eq_take_bit_minus)
    finally show ?thesis using True min by (simp add: abs64_def)
  next
    case False
    with lo have "- (2 ^ 63) \<le> - sint x" "- sint x < 2 ^ 63" using True by simp_all
    then have "signed_take_bit 63 (- sint x) = - sint x"
      by (simp add: signed_take_bit_int_eq_self)
    with neg True False show ?thesis by (simp add: abs64_def)
  qed
qed

lemma add_untracked_mem_result:
  "fst (add_untracked_mem E n bytes m) =
     (if sint (mem_tracker_consume_min_size_bytes E) \<le> sint (abs64 (untracked_mem m n + bytes))
      then untracked_mem m n + bytes else 0)"
  by (simp add: add_untracked_mem_def Let_def)

lemma add_untracked_mem_store:
  "untracked_mem (snd (add_untracked_mem E n bytes m)) =
     (untracked_mem m)
       (n := if sint (mem_tracker_consume_min_size_bytes E)
                   \<le> sint (abs64 (untracked_mem m n + bytes))
             then 0 else untracked_mem m n + bytes)"
  by (auto simp: add_untracked_mem_def Let_def)

lemma add_untracked_mem_seq_sum:
  "add_untracked_mem_seq E n bs m = (rs, m') \<Longrightarrow>
     untracked_mem m' n + sum_list rs = untracked_mem m n + sum_list bs"
proof (induction bs arbitrary: m rs m')
  case Nil
  then show ?case by simp
next
  case (Cons b bs)
  obtain r m1 where a: "add_untracked_mem E n b m = (r, m1)"
    by (cases "add_untracked_mem E n b m")
  obtain rs' m2 where s: "add_untracked_mem_seq E n bs m1 = (rs', m2)"
    by (cases "add_untracked_mem_seq E n bs m1")
  from Cons.prems a s have eq: "rs = r # rs'" "m' = m2"
    by simp_all
  have one: "untracked_mem m1 n + r = untracked_mem m n + b"
    using add_untracked_mem_result [of E n b m] add_untracked_mem_store [of E n b m] a
    by (auto split: if_splits)
  from Cons.IH [OF s]
  have "untracked_mem m2 n + (r + sum_list rs') = (untracked_mem m1 n + r) + sum_list bs"
    by (simp add: algebra_simps)
  with one eq show ?case
    by (simp add: algebra_simps)
qed

text \<open>
  C10, as the code has it. One call of \<^verbatim>\<open>add_untracked_mem(bytes)\<close>, returning \<open>r\<close> and
  leaving the store \<open>m'\<close>; the accumulated value is the old accumulator plus \<open>bytes\<close>,
  and its magnitude is the absolute value of the signed number it stands for. \<open>r\<close> is 0
  or the whole accumulated value. \<open>r\<close> is non-zero exactly when the accumulated value is
  not 0 and its magnitude is at least the threshold; for a positive threshold, exactly
  when its magnitude is at least the threshold. (At the least 64-bit value, where
  \<^verbatim>\<open>std::abs\<close> wraps around, the value itself is compared with the threshold.) After a
  non-zero result the accumulator is 0, after a zero result it holds the accumulated
  value; the accumulators of the other trackers and all consumption counters are as
  before. Accumulator plus returned value equals old accumulator plus \<open>bytes\<close>, and so,
  after any sequence of calls, the accumulator plus the sum of the returned values equals
  the initial accumulator (0 for a new tracker) plus the sum of the arguments.
\<close>

theorem add_untracked_mem_accounting:
  assumes "add_untracked_mem E n bytes m = (r, m')"
  shows "(r = 0 \<or> r = untracked_mem m n + bytes)
       \<and> (sint (untracked_mem m n + bytes) \<noteq> - (2 ^ 63) \<longrightarrow>
            (r \<noteq> 0) = (untracked_mem m n + bytes \<noteq> 0
                        \<and> sint (mem_tracker_consume_min_size_bytes E)
                            \<le> \<bar>sint (untracked_mem m n + bytes)\<bar>))
       \<and> (sint (untracked_mem m n + bytes) \<noteq> - (2 ^ 63)
            \<and> 0 < sint (mem_tracker_consume_min_size_bytes E) \<longrightarrow>
            (r \<noteq> 0) = (sint (mem_tracker_consume_min_size_bytes E)
                            \<le> \<bar>sint (untracked_mem m n + bytes)\<bar>))
       \<and> (sint (untracked_mem m n + bytes) = - (2 ^ 63) \<longrightarrow>
            (r \<noteq> 0) = (sint (mem_tracker_consume_min_size_bytes E) \<le> - (2 ^ 63)))
       \<and> (r \<noteq> 0 \<longrightarrow> untracked_mem m' n = 0)
       \<and> (r = 0 \<longrightarrow> untracked_mem m' n = untracked_mem m n + bytes)
       \<and> untracked_mem m' n + r = untracked_mem m n + bytes
       \<and> (\<forall>t. t \<noteq> n \<longrightarrow> untracked_mem m' t = untracked_mem m t)
       \<and> consumption m' = consumption m
       \<and> (\<forall>bs. untracked_mem (snd (add_untracked_mem_seq E n bs m)) n
                  + sum_list (fst (add_untracked_mem_seq E n bs m))
               = untracked_mem m n + sum_list bs)"
proof -
  define u where "u = untracked_mem m n + bytes"
  define T where "T = sint (mem_tracker_consume_min_size_bytes E)"
  have r: "r = (if T \<le> sint (abs64 u) then u else 0)"
    using add_untracked_mem_result [of E n bytes m] assms by (simp add: u_def T_def)
  have a: "untracked_mem m' = (untracked_mem m)(n := if T \<le> sint (abs64 u) then 0 else u)"
    using add_untracked_mem_store [of E n bytes m] assms by (simp add: u_def T_def)
  have c: "consumption m' = consumption m"
    using consumption_add_untracked_mem [of E n bytes m] assms by simp
  have zero: "sint u = 0 \<longleftrightarrow> u = 0"
    by (metis sint_0 signed_word_eqI)
  have mag: "sint (abs64 u) = (if sint u = - (2 ^ 63) then - (2 ^ 63) else \<bar>sint u\<bar>)"
    by (rule sint_abs64)
  have seq: "untracked_mem (snd (add_untracked_mem_seq E n bs m)) n
                  + sum_list (fst (add_untracked_mem_seq E n bs m))
               = untracked_mem m n + sum_list bs" for bs
    by (rule add_untracked_mem_seq_sum) simp
  have p1: "r = 0 \<or> r = u" using r by simp
  have p2: "sint u \<noteq> - (2 ^ 63) \<longrightarrow> (r \<noteq> 0) = (u \<noteq> 0 \<and> T \<le> \<bar>sint u\<bar>)"
    using r mag by auto
  have p3: "sint u \<noteq> - (2 ^ 63) \<and> 0 < T \<longrightarrow> (r \<noteq> 0) = (T \<le> \<bar>sint u\<bar>)"
    using p2 zero by auto
  have p4: "sint u = - (2 ^ 63) \<longrightarrow> (r \<noteq> 0) = (T \<le> - (2 ^ 63))"
  proof
    assume m: "sint u = - (2 ^ 63)"
    then have "u \<noteq> 0" using zero by auto
    with r mag m show "(r \<noteq> 0) = (T \<le> - (2 ^ 63))" by simp
  qed
  have p5: "r \<noteq> 0 \<longrightarrow> untracked_mem m' n = 0" using r a by (simp split: if_splits)
  have p6: "r = 0 \<longrightarrow> untracked_mem m' n = u" using r a by (simp split: if_splits)
  have p7: "untracked_mem m' n + r = u" using r a by simp
  have p8: "\<forall>t. t \<noteq> n \<longrightarrow> untracked_mem m' t = untracked_mem m t" using a by simp
  from p1 p2 p3 p4 p5 p6 p7 p8 c seq show ?thesis
    unfolding u_def T_def by blast
qed

theorem add_untracked_mem_accounting_witness:
  "add_untracked_mem example_env 2 (- 150) zero_mem
     = (fst (add_untracked_mem example_env 2 (- 150) zero_mem),
        snd (add_untracked_mem example_env 2 (- 150) zero_mem))
   \<and> sint (untracked_mem zero_mem 2 + (- 150 :: int64)) = - 150
   \<and> sint (mem_tracker_consume_min_size_bytes example_env) = 100
   \<and> fst (add_untracked_mem example_env 2 (- 150) zero_mem) = - 150
   \<and> untracked_mem (snd (add_untracked_mem example_env 2 (- 150) zero_mem)) 2 = 0
   \<and> fst (add_untracked_mem_seq example_env 2 [60, 50, - 30, - 150, 99, - 99] zero_mem)
       = [0, 110, 0, - 180, 0, 0]
   \<and> untracked_mem (snd (add_untracked_mem_seq example_env 2 [60, 50, - 30, - 150, 99, - 99]
         zero_mem)) 2 = 0"
proof -
  have h: "add_untracked_mem example_env 2 (- 150) zero_mem
     = (fst (add_untracked_mem example_env 2 (- 150) zero_mem),
        snd (add_untracked_mem example_env 2 (- 150) zero_mem))"
    by simp
  have v: "sint (untracked_mem zero_mem 2 + (- 150 :: int64)) = - 150"
    "sint (mem_tracker_consume_min_size_bytes example_env) = 100"
    by (simp_all add: example_defs)
  have u0: "untracked_mem zero_mem 2 + (- 150 :: int64) \<noteq> 0"
    by (simp add: zero_mem_def)
  note all = add_untracked_mem_accounting [OF h]
  note flush = all [THEN conjunct2, THEN conjunct1]
  note reset = all [THEN conjunct2, THEN conjunct2, THEN conjunct2, THEN conjunct2, THEN conjunct1]
  from flush v u0 have nz: "fst (add_untracked_mem example_env 2 (- 150) zero_mem) \<noteq> 0"
    by simp
  with all [THEN conjunct1] reset
  have "fst (add_untracked_mem example_env 2 (- 150) zero_mem)
          = untracked_mem zero_mem 2 + (- 150)"
    "untracked_mem (snd (add_untracked_mem example_env 2 (- 150) zero_mem)) 2 = 0"
    by blast+
  moreover have "fst (add_untracked_mem_seq example_env 2 [60, 50, - 30, - 150, 99, - 99] zero_mem)
       = [0, 110, 0, - 180, 0, 0]"
    "untracked_mem (snd (add_untracked_mem_seq example_env 2 [60, 50, - 30, - 150, 99, - 99]
         zero_mem)) 2 = 0"
    by (simp_all add: example_defs add_untracked_mem_def abs64_def)
  ultimately show ?thesis using h v by (simp add: zero_mem_def)
qed

text \<open>
  C10 as stated fails for a threshold of 0: a call that leaves the accumulator at 0 has
  a magnitude of 0, which is at least the threshold, and \<^verbatim>\<open>exchange(0)\<close> returns 0.
\<close>

theorem add_untracked_mem_zero_threshold:
  "sint (mem_tracker_consume_min_size_bytes unbatched_env) = 0
   \<and> \<not> ((fst (add_untracked_mem unbatched_env 2 0 zero_mem) \<noteq> 0)
          = (sint (mem_tracker_consume_min_size_bytes unbatched_env)
               \<le> \<bar>sint (untracked_mem zero_mem 2 + 0)\<bar>))"
  by (simp add: unbatched_env_def example_defs add_untracked_mem_def abs64_def)

section \<open>The GC retry of a single tracker\<close>

lemma try_add_fits:
  "try_add t bytes (limit (trackers E t)) m = (if fits E t bytes m then Some (add t bytes m) else None)"
  by (simp add: try_add_def fits_def)

lemma try_add_loop_result:
  assumes "try_add_loop gc E t bytes m = Some y"
  shows "\<exists>s. gc_retries gc E t bytes m s \<and>
           (case fst y of
              Inr u \<Rightarrow> fits E t bytes s \<and> snd y = add t bytes s
            | Inl e \<Rightarrow> \<not> fits E t bytes s \<and> gc t bytes s = (Inl e, snd y))"
proof (rule try_add_loop.raw_induct
    [where P = "\<lambda>gc E t bytes m y. \<exists>s. gc_retries gc E t bytes m s \<and>
           (case fst y of
              Inr u \<Rightarrow> fits E t bytes s \<and> snd y = add t bytes s
            | Inl e \<Rightarrow> \<not> fits E t bytes s \<and> gc t bytes s = (Inl e, snd y))", OF _ assms])
  fix loop :: "try_gc \<Rightarrow> env \<Rightarrow> tracker_id \<Rightarrow> int64 \<Rightarrow> mem \<Rightarrow> (status \<times> mem) option"
    and gc E t bytes m y
  assume IH: "\<And>gc E t bytes m y. loop gc E t bytes m = Some y \<Longrightarrow>
     \<exists>s. gc_retries gc E t bytes m s \<and>
           (case fst y of
              Inr u \<Rightarrow> fits E t bytes s \<and> snd y = add t bytes s
            | Inl e \<Rightarrow> \<not> fits E t bytes s \<and> gc t bytes s = (Inl e, snd y))"
  assume eq: "(case try_add t bytes (limit (trackers E t)) m of
      None \<Rightarrow>
        (case gc t bytes m of (Inl st, m1) \<Rightarrow> Some (Inl st, m1)
        | (Inr x, m1) \<Rightarrow> loop gc E t bytes m1)
      | Some m' \<Rightarrow> Some (Inr (), m')) = Some y"
  show "\<exists>s. gc_retries gc E t bytes m s \<and>
           (case fst y of
              Inr u \<Rightarrow> fits E t bytes s \<and> snd y = add t bytes s
            | Inl e \<Rightarrow> \<not> fits E t bytes s \<and> gc t bytes s = (Inl e, snd y))"
  proof (cases "fits E t bytes m")
    case True
    with eq have "y = (Inr (), add t bytes m)" by (simp add: try_add_fits)
    with True have "gc_retries gc E t bytes m m \<and>
           (case fst y of
              Inr u \<Rightarrow> fits E t bytes m \<and> snd y = add t bytes m
            | Inl e \<Rightarrow> \<not> fits E t bytes m \<and> gc t bytes m = (Inl e, snd y))"
      by (simp add: gc_retries_none)
    then show ?thesis ..
  next
    case False
    obtain st m1 where g: "gc t bytes m = (st, m1)" by (cases "gc t bytes m")
    show ?thesis
    proof (cases st)
      case (Inl e)
      with eq False g have "y = (Inl e, m1)" by (simp add: try_add_fits)
      with False g Inl have "gc_retries gc E t bytes m m \<and>
           (case fst y of
              Inr u \<Rightarrow> fits E t bytes m \<and> snd y = add t bytes m
            | Inl e \<Rightarrow> \<not> fits E t bytes m \<and> gc t bytes m = (Inl e, snd y))"
        by (simp add: gc_retries_none)
      then show ?thesis ..
    next
      case (Inr u)
      with eq False g have "loop gc E t bytes m1 = Some y" by (simp add: try_add_fits)
      from IH [OF this] obtain s where s: "gc_retries gc E t bytes m1 s"
         "(case fst y of
              Inr u \<Rightarrow> fits E t bytes s \<and> snd y = add t bytes s
            | Inl e \<Rightarrow> \<not> fits E t bytes s \<and> gc t bytes s = (Inl e, snd y))" by blast
      from g Inr have "gc t bytes m = (Inr (), m1)" by simp
      from gc_retries_pass [OF False this s(1)] s(2) show ?thesis by blast
    qed
  qed
qed


lemma gc_retries_idle:
  "gc_retries gc E t bytes m s \<Longrightarrow> \<forall>u b x. snd (gc u b x) = x \<Longrightarrow> s = m"
proof (induction rule: gc_retries.induct)
  case (gc_retries_none m)
  show ?case by simp
next
  case (gc_retries_pass m m1 m2)
  from gc_retries_pass.prems have "snd (gc t bytes m) = m" by blast
  with gc_retries_pass.hyps(2) have "m1 = m" by simp
  with gc_retries_pass.IH gc_retries_pass.prems show ?case by simp
qed


lemma try_add_loop_ok:
  "try_add_loop gc E t bytes m = Some (Inr u, m') \<Longrightarrow>
   \<exists>s. gc_retries gc E t bytes m s \<and> fits E t bytes s \<and> m' = add t bytes s"
  by (drule try_add_loop_result) simp

lemma try_add_loop_error:
  "try_add_loop gc E t bytes m = Some (Inl e, m') \<Longrightarrow>
   \<exists>s. gc_retries gc E t bytes m s \<and> \<not> fits E t bytes s \<and> gc t bytes s = (Inl e, m')"
  by (drule try_add_loop_result) simp



section \<open>The walk of \<^verbatim>\<open>try_consume\<close>\<close>

lemma rollback_fold:
  "rollback anc bytes i m = fold (\<lambda>t. add t (- bytes)) (rev (drop (Suc i) anc)) m"
proof -
  have "map ((!) anc) [Suc i ..< length anc] = drop (Suc i) anc"
    by (simp add: list_eq_iff_nth_eq)
  then have "rev (drop (Suc i) anc) = rev (map ((!) anc) [Suc i ..< length anc])"
    by simp
  then have "rev (drop (Suc i) anc) = map ((!) anc) (rev [Suc i ..< length anc])"
    by (simp only: rev_map)
  then show ?thesis
    by (simp add: rollback_def fold_map comp_def)
qed

lemma rev_take_Suc: "k < length anc \<Longrightarrow> rev (take (Suc k) anc) = anc ! k # rev (take k anc)"
  by (simp add: take_Suc_conv_app_nth)

lemma try_consume_walk_exempt:
  "\<not> enforced E (anc ! k) \<Longrightarrow>
   try_consume_walk gc E anc bytes (Suc k) m = try_consume_walk gc E anc bytes k (add (anc ! k) bytes m)"
  by (simp add: enforced_def)

lemma try_consume_walk_enforced:
  "enforced E (anc ! k) \<Longrightarrow>
   try_consume_walk gc E anc bytes (Suc k) m =
     (case try_add_loop gc E (anc ! k) bytes m of
              None \<Rightarrow> None
            | Some (Inl st, m1) \<Rightarrow> Some (Inl st, rollback anc bytes k m1)
            | Some (Inr _, m1) \<Rightarrow> try_consume_walk gc E anc bytes k m1)"
  by (simp add: enforced_def)

lemma try_consume_walk_success:
  "k \<le> length anc \<Longrightarrow> try_consume_walk gc E anc bytes k m = Some (Inr (), m') \<Longrightarrow>
   charged gc E bytes (rev (take k anc)) m m'"
proof (induction k arbitrary: m)
  case 0
  then show ?case by (simp add: charged_none)
next
  case (Suc k)
  then have k: "k < length anc" "k \<le> length anc" by simp_all
  show ?case
  proof (cases "enforced E (anc ! k)")
    case False
    with Suc.prems(2) have "try_consume_walk gc E anc bytes k (add (anc ! k) bytes m) = Some (Inr (), m')"
      by (simp add: enforced_def)
    from charged_exempt [OF False Suc.IH [OF k(2) this]] show ?thesis
      by (simp add: rev_take_Suc k(1))
  next
    case True
    with Suc.prems(2) obtain st m1 where
      l: "try_add_loop gc E (anc ! k) bytes m = Some (st, m1)"
      by (auto simp: enforced_def split: option.splits)
    show ?thesis
    proof (cases st)
      case (Inl e)
      with l True Suc.prems(2) show ?thesis by (simp add: enforced_def)
    next
      case (Inr u)
      with l True Suc.prems(2) have w: "try_consume_walk gc E anc bytes k m1 = Some (Inr (), m')"
        by (simp add: enforced_def)
      from l Inr have "try_add_loop gc E (anc ! k) bytes m = Some (Inr u, m1)" by simp
      from try_add_loop_ok [OF this] obtain s where
        s: "gc_retries gc E (anc ! k) bytes m s" "fits E (anc ! k) bytes s" "m1 = add (anc ! k) bytes s"
        by blast
      from Suc.IH [OF k(2) w] s(3) have "charged gc E bytes (rev (take k anc)) (add (anc ! k) bytes s) m'"
        by simp
      from charged_enforced [OF True s(1) s(2) this] show ?thesis
        by (simp add: rev_take_Suc k(1))
    qed
  qed
qed

lemma charged_idle:
  "charged gc E bytes ts m m' \<Longrightarrow> \<forall>u b x. snd (gc u b x) = x \<Longrightarrow>
   m' = fold (\<lambda>t. add t bytes) ts m"
proof (induction rule: charged.induct)
  case (charged_none m)
  show ?case by simp
next
  case (charged_exempt t ts m m2)
  then show ?case by simp
next
  case (charged_enforced t m m1 ts m2)
  from gc_retries_idle [OF charged_enforced.hyps(2) charged_enforced.prems]
    charged_enforced.IH charged_enforced.prems
  show ?case by simp
qed

lemma count_list_distinct: "distinct xs \<Longrightarrow> count_list xs x = (if x \<in> set xs then 1 else 0)"
  by (induction xs) auto

lemma try_consume_walk_failure:
  assumes idle: "\<forall>u b x. snd (gc u b x) = x"
  shows "k \<le> length anc \<Longrightarrow> try_consume_walk gc E anc bytes k m = Some (Inl e, m') \<Longrightarrow>
   \<exists>i<k. enforced E (anc ! i)
     \<and> \<not> fits E (anc ! i) bytes (fold (\<lambda>t. add t bytes) (rev (drop (Suc i) (take k anc))) m)
     \<and> fst (gc (anc ! i) bytes (fold (\<lambda>t. add t bytes) (rev (drop (Suc i) (take k anc))) m)) = Inl e
     \<and> m' = rollback anc bytes i (fold (\<lambda>t. add t bytes) (rev (drop (Suc i) (take k anc))) m)"
proof (induction k arbitrary: m)
  case 0
  then show ?case by simp
next
  case (Suc k)
  then have k: "k < length anc" "k \<le> length anc" by simp_all
  have shift: "fold (\<lambda>t. add t bytes) (rev (drop (Suc i) (take (Suc k) anc))) m
      = fold (\<lambda>t. add t bytes) (rev (drop (Suc i) (take k anc))) (add (anc ! k) bytes m)" if "i < k" for i
    using that k(1) by (simp add: take_Suc_conv_app_nth)
  have later: ?case if w: "try_consume_walk gc E anc bytes k (add (anc ! k) bytes m) = Some (Inl e, m')"
  proof -
    from Suc.IH [OF k(2) w] obtain i where i: "i < k" "enforced E (anc ! i)"
      "\<not> fits E (anc ! i) bytes
          (fold (\<lambda>t. add t bytes) (rev (drop (Suc i) (take k anc))) (add (anc ! k) bytes m))"
      "fst (gc (anc ! i) bytes (fold (\<lambda>t. add t bytes) (rev (drop (Suc i) (take k anc))) (add (anc ! k) bytes m)))
         = Inl e"
      "m' = rollback anc bytes i (fold (\<lambda>t. add t bytes) (rev (drop (Suc i) (take k anc))) (add (anc ! k) bytes m))"
      by blast
    from i(1) have "i < Suc k" by simp
    with i shift [OF i(1)] show ?thesis by metis
  qed
  show ?case
  proof (cases "enforced E (anc ! k)")
    case False
    with Suc.prems(2) have "try_consume_walk gc E anc bytes k (add (anc ! k) bytes m) = Some (Inl e, m')"
      by (simp add: enforced_def)
    then show ?thesis by (rule later)
  next
    case True
    with Suc.prems(2) obtain st m1 where
      l: "try_add_loop gc E (anc ! k) bytes m = Some (st, m1)"
      by (auto simp: enforced_def split: option.splits)
    show ?thesis
    proof (cases st)
      case (Inl e')
      with l True Suc.prems(2) have e: "e' = e" "m' = rollback anc bytes k m1"
        by (simp_all add: enforced_def)
      from l Inl have "try_add_loop gc E (anc ! k) bytes m = Some (Inl e', m1)" by simp
      from try_add_loop_error [OF this] obtain s where
        s: "gc_retries gc E (anc ! k) bytes m s" "\<not> fits E (anc ! k) bytes s"
           "gc (anc ! k) bytes s = (Inl e', m1)"
        by blast
      from gc_retries_idle [OF s(1) idle] have sm: "s = m" .
      from s(3) idle sm have "m1 = m" by (metis snd_conv)
      with e s sm True have "enforced E (anc ! k)
     \<and> \<not> fits E (anc ! k) bytes
          (fold (\<lambda>t. add t bytes) (rev (drop (Suc k) (take (Suc k) anc))) m)
     \<and> fst (gc (anc ! k) bytes (fold (\<lambda>t. add t bytes) (rev (drop (Suc k) (take (Suc k) anc))) m))
         = Inl e
     \<and> m' = rollback anc bytes k (fold (\<lambda>t. add t bytes) (rev (drop (Suc k) (take (Suc k) anc))) m)"
        by simp
      then show ?thesis by blast
    next
      case (Inr u)
      with l True Suc.prems(2) have w: "try_consume_walk gc E anc bytes k m1 = Some (Inl e, m')"
        by (simp add: enforced_def)
      from l Inr have "try_add_loop gc E (anc ! k) bytes m = Some (Inr u, m1)" by simp
      from try_add_loop_ok [OF this] obtain s where
        s: "gc_retries gc E (anc ! k) bytes m s" "m1 = add (anc ! k) bytes s"
        by blast
      from gc_retries_idle [OF s(1) idle] s(2) have "m1 = add (anc ! k) bytes m" by simp
      with w show ?thesis by (simp add: later)
    qed
  qed
qed

lemma mem_eqI:
  "consumption a = consumption b \<Longrightarrow> untracked_mem a = untracked_mem b \<Longrightarrow> a = (b::mem)"
  by simp

lemma rollback_restores:
  "rollback anc bytes i (fold (\<lambda>t. add t bytes) (rev (drop (Suc i) anc)) m) = m"
proof (rule mem_eqI)
  show "consumption (rollback anc bytes i (fold (\<lambda>t. add t bytes) (rev (drop (Suc i) anc)) m)) = consumption m"
    by (rule ext) (simp add: rollback_fold consumption_fold_add)
  show "untracked_mem (rollback anc bytes i (fold (\<lambda>t. add t bytes) (rev (drop (Suc i) anc)) m)) = untracked_mem m"
    by (simp add: rollback_fold untracked_mem_fold_add)
qed

lemma try_gc_memory_idle:
  "\<forall>f\<in>set (gc_functions (trackers E t)). \<forall>b x. f b x = x \<Longrightarrow> snd (try_gc_memory E t bytes m) = m"
proof -
  assume a: "\<forall>f\<in>set (gc_functions (trackers E t)). \<forall>b x. f b x = x"
  have "\<forall>f\<in>set fs. \<forall>b x. f b x = x \<Longrightarrow> gc_pass fs t lim bytes m = m" for fs lim
    by (induction fs) simp_all
  with a show ?thesis by (simp add: try_gc_memory_def)
qed

lemma try_gc_memory_names_tracker:
  "fst (try_gc_memory E t bytes m) = Inl e \<Longrightarrow> exceeded_tracker e = Some (label (trackers E t))"
  by (auto simp: try_gc_memory_def split: if_splits)

lemma example_gc_idle: "\<forall>u b x. snd (try_gc_memory example_env u b x) = x"
  by (simp add: try_gc_memory_idle example_defs)

text \<open>
  C1, as the code has it. Let \<^verbatim>\<open>try_consume(bytes)\<close> with \<open>bytes > 0\<close> return an error, and
  let \<^verbatim>\<open>try_gc_memory\<close> leave the store as it finds it (the registered callbacks free
  nothing). Then the store after the call is the store before it: the rollback subtracts
  \<open>bytes\<close> from exactly the ancestors that were charged. The error is either the one of
  \<^verbatim>\<open>check_sys_mem_info\<close>, raised before any counter is touched and naming no tracker, or
  the status that \<^verbatim>\<open>try_gc_memory\<close> of an enforced ancestor returned when, with the
  ancestors above it charged, the request did not fit under its limit. So, when the
  errors of \<^verbatim>\<open>try_gc_memory\<close> name the tracker they come from, the error of the call is
  the process-memory error or names an enforced ancestor of the chain.
\<close>

theorem try_consume_failure_rolls_back:
  assumes "try_consume gc E n bytes m = Some (Inl e, m')"
    and "0 < sint bytes"
    and "\<forall>u b x. snd (gc u b x) = x"
  shows "m' = m
       \<and> (e = ProcessMemoryExceeded (vm_rss E) (mem_limit E) bytes
              \<and> sint (mem_limit E) \<le> sint (vm_rss E + bytes)
          \<or> (\<exists>i < length (all_ancestors (trackers E n)).
                enforced E (all_ancestors (trackers E n) ! i)
              \<and> \<not> fits E (all_ancestors (trackers E n) ! i) bytes
                    (fold (\<lambda>t. add t bytes) (rev (drop (Suc i) (all_ancestors (trackers E n)))) m)
              \<and> fst (gc (all_ancestors (trackers E n) ! i) bytes
                    (fold (\<lambda>t. add t bytes) (rev (drop (Suc i) (all_ancestors (trackers E n)))) m))
                  = Inl e))
       \<and> ((\<forall>u b x e'. fst (gc u b x) = Inl e' \<longrightarrow>
               exceeded_tracker e' = Some (label (trackers E u))) \<longrightarrow>
            e = ProcessMemoryExceeded (vm_rss E) (mem_limit E) bytes
          \<or> (\<exists>t \<in> set (all_ancestors (trackers E n)).
                enforced E t \<and> exceeded_tracker e = Some (label (trackers E t))))"
proof -
  have first: "m' = m
       \<and> (e = ProcessMemoryExceeded (vm_rss E) (mem_limit E) bytes
              \<and> sint (mem_limit E) \<le> sint (vm_rss E + bytes)
          \<or> (\<exists>i < length (all_ancestors (trackers E n)).
                enforced E (all_ancestors (trackers E n) ! i)
              \<and> \<not> fits E (all_ancestors (trackers E n) ! i) bytes
                    (fold (\<lambda>t. add t bytes) (rev (drop (Suc i) (all_ancestors (trackers E n)))) m)
              \<and> fst (gc (all_ancestors (trackers E n) ! i) bytes
                    (fold (\<lambda>t. add t bytes) (rev (drop (Suc i) (all_ancestors (trackers E n)))) m))
                  = Inl e))"
  proof (cases "check_sys_mem_info E bytes")
    case (Inl st)
    with assms(1,2) show ?thesis
      by (auto simp: try_consume_def check_sys_mem_info_def split: if_splits)
  next
    case (Inr u)
    with assms(1,2) have
      "try_consume_walk gc E (all_ancestors (trackers E n)) bytes
         (length (all_ancestors (trackers E n))) m = Some (Inl e, m')"
      by (simp add: try_consume_def)
    from try_consume_walk_failure [OF assms(3) le_refl this]
    show ?thesis by (auto simp: rollback_restores)
  qed
  have "e = ProcessMemoryExceeded (vm_rss E) (mem_limit E) bytes
          \<or> (\<exists>t \<in> set (all_ancestors (trackers E n)).
                enforced E t \<and> exceeded_tracker e = Some (label (trackers E t)))"
    if names: "\<forall>u b x e'. fst (gc u b x) = Inl e' \<longrightarrow>
               exceeded_tracker e' = Some (label (trackers E u))"
  proof (cases "e = ProcessMemoryExceeded (vm_rss E) (mem_limit E) bytes")
    case True
    then show ?thesis by simp
  next
    case False
    with first obtain i where i: "i < length (all_ancestors (trackers E n))"
      "enforced E (all_ancestors (trackers E n) ! i)"
      "fst (gc (all_ancestors (trackers E n) ! i) bytes
          (fold (\<lambda>t. add t bytes) (rev (drop (Suc i) (all_ancestors (trackers E n)))) m))
        = Inl e"
      by blast
    from names i(3)
    have "exceeded_tracker e = Some (label (trackers E (all_ancestors (trackers E n) ! i)))"
      by blast
    moreover from i(1) have "all_ancestors (trackers E n) ! i \<in> set (all_ancestors (trackers E n))"
      by simp
    ultimately show ?thesis using i(2) by blast
  qed
  with first show ?thesis by blast
qed

theorem try_consume_failure_rolls_back_witness:
  "try_consume (try_gc_memory example_env) example_env 2 500
      (fold (\<lambda>t. add t 600) [0, 1, 2] zero_mem)
     = Some (Inl (TrackerLimitExceeded ''query'' 1000 600 500),
             fold (\<lambda>t. add t 600) [0, 1, 2] zero_mem)
   \<and> 0 < sint (500 :: int64)
   \<and> enforced example_env 1
   \<and> exceeded_tracker (TrackerLimitExceeded ''query'' 1000 600 500)
       = Some (label (trackers example_env 1))"
proof -
  have r: "try_consume (try_gc_memory example_env) example_env 2 500
      (fold (\<lambda>t. add t 600) [0, 1, 2] zero_mem)
     = Some (Inl (TrackerLimitExceeded ''query'' 1000 600 500),
             rollback [2, 1, 0] 500 1 (add 0 500 (fold (\<lambda>t. add t 600) [0, 1, 2] zero_mem)))"
    by (simp add: try_consume_def check_sys_mem_info_def example_defs try_add_loop.simps
        try_add_def current_value_def try_gc_memory_def add_def)
  have p: "0 < sint (500 :: int64)" by simp
  from try_consume_failure_rolls_back [OF r p example_gc_idle]
  have "rollback [2, 1, 0] 500 1 (add 0 500 (fold (\<lambda>t. add t 600) [0, 1, 2] zero_mem))
      = fold (\<lambda>t. add t 600) [0, 1, 2] zero_mem" by simp
  with r p show ?thesis by (simp add: enforced_def example_defs)
qed

text \<open>
  C1 as stated fails on the path through \<^verbatim>\<open>check_sys_mem_info\<close>: with resident memory 100
  bytes below the ceiling, a request of 500 bytes returns an error that names none of the
  ancestors.
\<close>

theorem try_consume_process_error_names_no_tracker:
  "\<not> (\<forall>e m'. try_consume (try_gc_memory loaded_env) loaded_env 2 500 zero_mem = Some (Inl e, m') \<longrightarrow>
         (\<exists>t \<in> set (all_ancestors (trackers loaded_env 2)).
             exceeded_tracker e = Some (label (trackers loaded_env t))))"
proof
  assume a: "\<forall>e m'. try_consume (try_gc_memory loaded_env) loaded_env 2 500 zero_mem = Some (Inl e, m') \<longrightarrow>
         (\<exists>t \<in> set (all_ancestors (trackers loaded_env 2)).
             exceeded_tracker e = Some (label (trackers loaded_env t)))"
  have "try_consume (try_gc_memory loaded_env) loaded_env 2 500 zero_mem
          = Some (Inl (ProcessMemoryExceeded 999999900 1000000000 500), zero_mem)"
    by (simp add: try_consume_def check_sys_mem_info_def loaded_env_def example_defs)
  with a have "\<exists>t \<in> set (all_ancestors (trackers loaded_env 2)).
             exceeded_tracker (ProcessMemoryExceeded 999999900 1000000000 500) = Some (label (trackers loaded_env t))"
    by blast
  then show False by simp
qed

text \<open>
  C2. Let \<^verbatim>\<open>try_consume(bytes)\<close> with \<open>bytes > 0\<close> return OK. Then the chain was walked from
  the root end (the reverse of \<^verbatim>\<open>_all_ancestors\<close>) and every entry received exactly one add
  of \<open>bytes\<close>, with nothing in between but the GC rounds of the enforced tracker about
  to be charged. When these rounds leave the store alone and the chain has no tracker
  twice, the counter of every tracker of the chain has grown by exactly \<open>bytes\<close>, and no
  other counter and no accumulator has changed.
\<close>

theorem try_consume_success_charges_chain:
  assumes "try_consume gc E n bytes m = Some (Inr (), m')"
    and "0 < sint bytes"
  shows "charged gc E bytes (rev (all_ancestors (trackers E n))) m m'
       \<and> ((\<forall>u b x. snd (gc u b x) = x) \<and> distinct (all_ancestors (trackers E n)) \<longrightarrow>
            (\<forall>t. consumption m' t =
                   (if t \<in> set (all_ancestors (trackers E n)) then consumption m t + bytes
                    else consumption m t))
            \<and> untracked_mem m' = untracked_mem m)"
proof -
  from assms have w:
    "try_consume_walk gc E (all_ancestors (trackers E n)) bytes
       (length (all_ancestors (trackers E n))) m = Some (Inr (), m')"
    by (auto simp: try_consume_def split: sum.splits)
  from try_consume_walk_success [OF le_refl w]
  have c: "charged gc E bytes (rev (all_ancestors (trackers E n))) m m'" by simp
  have "consumption m' t =
          (if t \<in> set (all_ancestors (trackers E n)) then consumption m t + bytes
           else consumption m t) \<and> untracked_mem m' = untracked_mem m"
    if idle: "\<forall>u b x. snd (gc u b x) = x" and d: "distinct (all_ancestors (trackers E n))" for t
  proof -
    from charged_idle [OF c idle]
    have "m' = fold (\<lambda>t. add t bytes) (rev (all_ancestors (trackers E n))) m" .
    with d show ?thesis
      by (simp add: consumption_fold_add untracked_mem_fold_add count_list_distinct)
  qed
  with c show ?thesis by blast
qed

theorem try_consume_success_charges_chain_witness:
  "try_consume (try_gc_memory example_env) example_env 2 600 zero_mem
     = Some (Inr (), consume example_env 2 600 zero_mem)
   \<and> 0 < sint (600 :: int64)
   \<and> distinct (all_ancestors (trackers example_env 2))
   \<and> map (consumption (consume example_env 2 600 zero_mem)) [0, 1, 2, 3] = [600, 600, 600, 0]
   \<and> charged (try_gc_memory example_env) example_env 600 [0, 1, 2] zero_mem
        (consume example_env 2 600 zero_mem)"
proof -
  have r0: "try_consume (try_gc_memory example_env) example_env 2 600 zero_mem
     = Some (Inr (), add 2 600 (add 1 600 (add 0 600 zero_mem)))"
    by (simp add: try_consume_def check_sys_mem_info_def example_defs try_add_loop.simps
        try_add_def current_value_def add_def)
  have "add 2 600 (add 1 600 (add 0 600 zero_mem)) = consume example_env 2 600 zero_mem"
    by (rule mem_eqI; rule ext; simp add: consume_def example_defs add_def)
  with r0 have r: "try_consume (try_gc_memory example_env) example_env 2 600 zero_mem
     = Some (Inr (), consume example_env 2 600 zero_mem)"
    by simp
  have p: "0 < sint (600 :: int64)" by simp
  from try_consume_success_charges_chain [OF r p] example_gc_idle
  show ?thesis using r p by (simp add: example_defs)
qed

section \<open>The modelled GC protocol inside \<^verbatim>\<open>try_consume\<close>\<close>

lemma try_gc_memory_ok_fits:
  "try_gc_memory E t bytes m = (Inr u, m1) \<Longrightarrow> fits E t bytes m1"
  by (auto simp: try_gc_memory_def fits_def split: if_splits)

lemma try_add_loop_try_gc_memory:
  "try_add_loop (try_gc_memory E) E t bytes m =
     (if fits E t bytes m then Some (Inr (), add t bytes m)
      else (case try_gc_memory E t bytes m of
              (Inl e, m1) \<Rightarrow> Some (Inl e, m1)
            | (Inr u, m1) \<Rightarrow> Some (Inr (), add t bytes m1)))"
proof (cases "fits E t bytes m")
  case True
  then show ?thesis by (subst try_add_loop.simps) (simp add: try_add_fits)
next
  case False
  obtain st m1 where g: "try_gc_memory E t bytes m = (st, m1)"
    by (cases "try_gc_memory E t bytes m")
  show ?thesis
  proof (cases st)
    case (Inl e)
    with False g show ?thesis by (subst try_add_loop.simps) (simp add: try_add_fits)
  next
    case (Inr u)
    with g have "fits E t bytes m1" by (simp add: try_gc_memory_ok_fits)
    then have "try_add_loop (try_gc_memory E) E t bytes m1 = Some (Inr (), add t bytes m1)"
      by (subst try_add_loop.simps) (simp add: try_add_fits)
    with False g Inr show ?thesis by (subst try_add_loop.simps) (simp add: try_add_fits)
  qed
qed

text \<open>
  C6. The example of the spec, in the tree root (no limit), query tracker (limit 1000),
  instance tracker (no limit), from zero consumption. \<^verbatim>\<open>try_consume(600)\<close> on the instance
  succeeds and leaves 600 on every tracker. With no callback registered, a following
  \<^verbatim>\<open>try_consume(500)\<close> fails with the query tracker's error and leaves the store as it
  was: the query tracker at 600 and the root, charged 500 on the way, back at 600. With
  a callback on the query tracker that frees 450 bytes, the same call succeeds: the
  query tracker ends at 650.
\<close>

theorem example_scenario:
  "try_consume (try_gc_memory example_env) example_env 2 600 zero_mem
     = Some (Inr (), consume example_env 2 600 zero_mem)
   \<and> map (consumption (consume example_env 2 600 zero_mem)) [0, 1, 2] = [600, 600, 600]
   \<and> gc_functions (trackers example_env 1) = []
   \<and> try_consume (try_gc_memory example_env) example_env 2 500 (consume example_env 2 600 zero_mem)
     = Some (Inl (TrackerLimitExceeded ''query'' 1000 600 500), consume example_env 2 600 zero_mem)
   \<and> gc_functions (trackers gc_env 1) = [free_450]
   \<and> try_consume (try_gc_memory gc_env) gc_env 2 500 (consume example_env 2 600 zero_mem)
     = Some (Inr (), consume gc_env 2 500 (free_450 500 (consume example_env 2 600 zero_mem)))
   \<and> map (consumption (consume gc_env 2 500 (free_450 500 (consume example_env 2 600 zero_mem))))
        [0, 1, 2] = [1100, 650, 1100]"
proof -
  have m600: "consume example_env 2 600 zero_mem = add 0 600 (add 1 600 (add 2 600 zero_mem))"
    by (simp add: consume_def example_defs)
  have a: "try_consume (try_gc_memory example_env) example_env 2 600 zero_mem
     = Some (Inr (), add 2 600 (add 1 600 (add 0 600 zero_mem)))"
    by (simp add: try_consume_def check_sys_mem_info_def example_defs try_add_loop_try_gc_memory
        fits_def current_value_def add_def)
  have a': "add 2 600 (add 1 600 (add 0 600 zero_mem)) = consume example_env 2 600 zero_mem"
    by (simp only: m600) (rule mem_eqI; rule ext; simp add: add_def)
  have b: "try_consume (try_gc_memory example_env) example_env 2 500 (consume example_env 2 600 zero_mem)
     = Some (Inl (TrackerLimitExceeded ''query'' 1000 600 500),
         rollback [2, 1, 0] 500 1 (add 0 500 (consume example_env 2 600 zero_mem)))"
    by (simp only: m600) (simp add: try_consume_def check_sys_mem_info_def example_defs try_add_loop_try_gc_memory
        fits_def current_value_def try_gc_memory_def add_def)
  have b': "rollback [2, 1, 0] 500 1 (add 0 500 (consume example_env 2 600 zero_mem))
      = consume example_env 2 600 zero_mem"
    by (simp only: m600) (rule mem_eqI; rule ext; simp add: add_def rollback_def)
  have c: "try_consume (try_gc_memory gc_env) gc_env 2 500 (consume example_env 2 600 zero_mem)
     = Some (Inr (), add 2 500 (add 1 500 (free_450 500 (add 0 500 (consume example_env 2 600 zero_mem)))))"
    by (simp only: m600) (simp add: try_consume_def check_sys_mem_info_def gc_env_def add_gc_function_def
        example_defs try_add_loop_try_gc_memory
        fits_def current_value_def try_gc_memory_def free_450_def add_def)
  have c': "add 2 500 (add 1 500 (free_450 500 (add 0 500 (consume example_env 2 600 zero_mem))))
      = consume gc_env 2 500 (free_450 500 (consume example_env 2 600 zero_mem))"
    by (simp only: m600) (rule mem_eqI; rule ext;
        simp add: add_def consume_def gc_env_def add_gc_function_def example_defs free_450_def)
  have d: "map (consumption (consume example_env 2 600 zero_mem)) [0, 1, 2] = [600, 600, 600]"
    by (simp only: m600) (simp add: add_def zero_mem_def)
  have e: "map (consumption (consume gc_env 2 500 (free_450 500 (consume example_env 2 600 zero_mem))))
        [0, 1, 2] = [1100, 650, 1100]"
    by (simp only: m600) (simp add: add_def consume_def gc_env_def add_gc_function_def example_defs free_450_def)
  have f: "gc_functions (trackers example_env 1) = []" "gc_functions (trackers gc_env 1) = [free_450]"
    by (simp_all add: gc_env_def add_gc_function_def example_defs)
  from a a' b b' c c' d e f show ?thesis by simp
qed

section \<open>One enforced tracker\<close>

lemma try_consume_walk_exempt_tail:
  "\<forall>i. j \<le> i \<and> i < k \<longrightarrow> \<not> enforced E (anc ! i) \<Longrightarrow> j \<le> k \<Longrightarrow> k \<le> length anc \<Longrightarrow>
   try_consume_walk gc E anc bytes k m =
     try_consume_walk gc E anc bytes j (fold (\<lambda>t. add t bytes) (rev (drop j (take k anc))) m)"
proof (induction k arbitrary: m)
  case 0
  then show ?case by simp
next
  case (Suc k)
  show ?case
  proof (cases "j = Suc k")
    case True
    then show ?thesis by simp
  next
    case False
    with Suc.prems have jk: "j \<le> k" "k < length anc" "k \<le> length anc" by simp_all
    from Suc.prems(1) jk have ex: "\<not> enforced E (anc ! k)" by simp
    from Suc.prems(1) have "\<forall>i. j \<le> i \<and> i < k \<longrightarrow> \<not> enforced E (anc ! i)" by simp
    from Suc.IH [OF this jk(1) jk(3)]
    have "try_consume_walk gc E anc bytes k (add (anc ! k) bytes m) =
       try_consume_walk gc E anc bytes j
         (fold (\<lambda>t. add t bytes) (rev (drop j (take k anc))) (add (anc ! k) bytes m))" .
    moreover have "rev (drop j (take (Suc k) anc)) = anc ! k # rev (drop j (take k anc))"
      using jk by (simp add: take_Suc_conv_app_nth)
    ultimately show ?thesis using ex by (simp add: enforced_def)
  qed
qed

lemma try_gc_memory_idle_result:
  assumes "\<forall>f\<in>set (gc_functions (trackers E t)). \<forall>b x. f b x = x"
  shows "try_gc_memory E t bytes m =
     (if fits E t bytes m then (Inr (), m)
      else (Inl (TrackerLimitExceeded (label (trackers E t)) (limit (trackers E t))
                  (consumption m t) bytes), m))"
proof -
  have "\<forall>f\<in>set fs. \<forall>b x. f b x = x \<Longrightarrow> gc_pass fs t lim bytes m = m" for fs lim
    by (induction fs) simp_all
  with assms show ?thesis by (simp add: try_gc_memory_def fits_def current_value_def)
qed

lemma fold_add_other:
  "t \<notin> set ts \<Longrightarrow> consumption (fold (\<lambda>u. add u d) ts m) t = consumption m t"
  by (simp add: consumption_fold_add)

lemma fits_cong: "consumption s t = consumption m t \<Longrightarrow> fits E t bytes s = fits E t bytes m"
  by (simp add: fits_def current_value_def)

lemma try_consume_single_limit:
  assumes t: "t \<in> set (all_ancestors (trackers E n))"
    and d: "distinct (all_ancestors (trackers E n))"
    and en: "enforced E t"
    and others: "\<forall>u\<in>set (all_ancestors (trackers E n)). u \<noteq> t \<longrightarrow> \<not> enforced E u"
    and idle: "\<forall>f\<in>set (gc_functions (trackers E t)). \<forall>b x. f b x = x"
    and pos: "0 < sint bytes"
    and sys: "sint (vm_rss E + bytes) < sint (mem_limit E)"
  shows "try_consume (try_gc_memory E) E n bytes m =
     (if sint (consumption m t + bytes) < sint (limit (trackers E t))
      then Some (Inr (), fold (\<lambda>u. add u bytes) (rev (all_ancestors (trackers E n))) m)
      else Some (Inl (TrackerLimitExceeded (label (trackers E t)) (limit (trackers E t))
                       (consumption m t) bytes), m))"
proof -
  define anc where "anc = all_ancestors (trackers E n)"
  from t obtain j where j: "j < length anc" "anc ! j = t"
    unfolding anc_def by (auto simp: in_set_conv_nth)
  from d have dist: "distinct anc" by (simp add: anc_def)
  have oth: "\<not> enforced E (anc ! i)" if "i < length anc" "i \<noteq> j" for i
  proof -
    from that j dist have "anc ! i \<noteq> t" by (auto simp: nth_eq_iff_index_eq)
    moreover from that have "anc ! i \<in> set anc" by simp
    ultimately show ?thesis using others by (simp add: anc_def)
  qed
  define s1 where "s1 = fold (\<lambda>u. add u bytes) (rev (drop (Suc j) anc)) m"
  have above: "try_consume_walk (try_gc_memory E) E anc bytes (length anc) m
       = try_consume_walk (try_gc_memory E) E anc bytes (Suc j) s1"
    unfolding s1_def using j(1) oth
    by (subst try_consume_walk_exempt_tail [where j = "Suc j"]) auto
  have below: "try_consume_walk (try_gc_memory E) E anc bytes j s
       = Some (Inr (), fold (\<lambda>u. add u bytes) (rev (take j anc)) s)" for s
    using j(1) oth
    by (subst try_consume_walk_exempt_tail [where j = 0]) auto
  have "t \<notin> set (drop (Suc j) anc)"
  proof
    assume "t \<in> set (drop (Suc j) anc)"
    then obtain i where "i < length (drop (Suc j) anc)" "drop (Suc j) anc ! i = t"
      by (auto simp: in_set_conv_nth)
    then have "Suc j + i < length anc" "anc ! (Suc j + i) = t" by simp_all
    with j dist show False by (auto simp: nth_eq_iff_index_eq)
  qed
  then have c1: "consumption s1 t = consumption m t"
    by (simp add: s1_def fold_add_other)
  then have f1: "fits E t bytes s1 = (sint (consumption m t + bytes) < sint (limit (trackers E t)))"
    by (simp add: fits_def current_value_def)
  have at: "try_consume_walk (try_gc_memory E) E anc bytes (Suc j) s1 =
       (if fits E t bytes s1
        then try_consume_walk (try_gc_memory E) E anc bytes j (add t bytes s1)
        else Some (Inl (TrackerLimitExceeded (label (trackers E t)) (limit (trackers E t))
                       (consumption m t) bytes), rollback anc bytes j s1))"
    using en j(2) c1
    by (simp add: enforced_def try_add_loop_try_gc_memory try_gc_memory_idle_result [OF idle])
  have undo: "rollback anc bytes j s1 = m"
    unfolding s1_def by (rule rollback_restores)
  have split_anc: "rev anc = rev (drop (Suc j) anc) @ t # rev (take j anc)"
    using j by (metis id_take_nth_drop rev.simps(2) rev_append append.assoc append_Cons append_Nil)
  have whole: "fold (\<lambda>u. add u bytes) (rev (take j anc)) (add t bytes s1)
       = fold (\<lambda>u. add u bytes) (rev anc) m"
    by (simp add: split_anc s1_def)
  from pos sys have "try_consume (try_gc_memory E) E n bytes m
      = try_consume_walk (try_gc_memory E) E anc bytes (length anc) m"
    by (simp add: try_consume_def check_sys_mem_info_def anc_def)
  with above at below undo whole f1 show ?thesis
    by (simp add: anc_def)
qed

lemma try_add_loop_returns:
  "\<exists>r. try_add_loop (try_gc_memory E) E t bytes m = Some r"
  by (simp add: try_add_loop_try_gc_memory split: prod.splits sum.splits)

lemma try_consume_walk_returns:
  "\<exists>r. try_consume_walk (try_gc_memory E) E anc bytes k m = Some r"
proof (induction k arbitrary: m)
  case 0
  show ?case by simp
next
  case (Suc k)
  show ?case
  proof (cases "enforced E (anc ! k)")
    case False
    show ?thesis
      unfolding try_consume_walk_exempt [OF False] by (rule Suc.IH)
  next
    case True
    from try_add_loop_returns obtain st m1 where
      "try_add_loop (try_gc_memory E) E (anc ! k) bytes m = Some (st, m1)" by fastforce
    with Suc.IH [of m1] show ?thesis
      unfolding try_consume_walk_enforced [OF True] by (cases st) simp_all
  qed
qed

lemma try_consume_returns:
  "\<exists>r. try_consume (try_gc_memory E) E n bytes m = Some r"
  using try_consume_walk_returns
  by (simp add: try_consume_def split: sum.splits)

lemma try_consume_error_idle:
  assumes "try_consume gc E n bytes m = Some (Inl e, m')"
    and "0 < sint bytes"
    and "\<forall>u b x. snd (gc u b x) = x"
  shows "m' = m"
proof (cases "check_sys_mem_info E bytes")
  case (Inl st)
  with assms(1,2) show ?thesis
    by (simp add: try_consume_def)
next
  case (Inr u)
  with assms(1,2) have
    "try_consume_walk gc E (all_ancestors (trackers E n)) bytes
       (length (all_ancestors (trackers E n))) m = Some (Inl e, m')"
    by (simp add: try_consume_def)
  from try_consume_walk_failure [OF assms(3) le_refl this]
  show ?thesis by (auto simp: rollback_restores)
qed

lemma try_consume_ok_charged:
  assumes "try_consume gc E n bytes m = Some (Inr u, m')"
    and "0 < sint bytes"
  shows "charged gc E bytes (rev (all_ancestors (trackers E n))) m m'"
proof -
  from assms have
    "try_consume_walk gc E (all_ancestors (trackers E n)) bytes
       (length (all_ancestors (trackers E n))) m = Some (Inr (), m')"
    by (auto simp: try_consume_def split: sum.splits)
  from try_consume_walk_success [OF le_refl this] show ?thesis by simp
qed

lemma fits_add_other: "t \<noteq> u \<Longrightarrow> fits E t bytes (add u d m) = fits E t bytes m"
  by (simp add: fits_def current_value_def consumption_add)

lemma charged_idle_fits:
  "charged gc E bytes ts m m' \<Longrightarrow> \<forall>u b x. snd (gc u b x) = x \<Longrightarrow>
   t \<in> set ts \<Longrightarrow> distinct ts \<Longrightarrow> enforced E t \<Longrightarrow> fits E t bytes m"
proof (induction rule: charged.induct)
  case (charged_none m)
  then show ?case by simp
next
  case (charged_exempt u ts m m2)
  from charged_exempt.hyps(1) charged_exempt.prems(4) have ne: "t \<noteq> u" by auto
  with charged_exempt.prems have "t \<in> set ts" "distinct ts" by simp_all
  from charged_exempt.IH [OF charged_exempt.prems(1) this charged_exempt.prems(4)] ne
  show ?case by (simp add: fits_add_other)
next
  case (charged_enforced u m m1 ts m2)
  from gc_retries_idle [OF charged_enforced.hyps(2) charged_enforced.prems(1)] have m1: "m1 = m" .
  show ?case
  proof (cases "t = u")
    case True
    with charged_enforced.hyps(3) m1 show ?thesis by simp
  next
    case False
    with charged_enforced.prems have "t \<in> set ts" "distinct ts" by simp_all
    from charged_enforced.IH [OF charged_enforced.prems(1) this charged_enforced.prems(4)] False m1
    show ?thesis by (simp add: fits_add_other)
  qed
qed

lemma try_gc_memory_all_idle:
  "\<forall>u. \<forall>f\<in>set (gc_functions (trackers E u)). \<forall>b x. f b x = x \<Longrightarrow>
   \<forall>u b x. snd (try_gc_memory E u b x) = x"
  by (simp add: try_gc_memory_idle)

lemma try_consume_enforced_call:
  assumes t: "t \<in> set (all_ancestors (trackers E n))"
    and d: "distinct (all_ancestors (trackers E n))"
    and en: "enforced E t"
    and idle: "\<forall>u. \<forall>f\<in>set (gc_functions (trackers E u)). \<forall>b x. f b x = x"
    and pos: "0 < sint bytes"
  shows "\<exists>st m'. try_consume (try_gc_memory E) E n bytes m = Some (st, m')
           \<and> (isl st \<longrightarrow> m' = m)
           \<and> (\<not> isl st \<longrightarrow> fits E t bytes m \<and> consumption m' t = consumption m t + bytes)"
proof -
  from try_consume_returns obtain st m' where
    r: "try_consume (try_gc_memory E) E n bytes m = Some (st, m')" by fastforce
  note gi = try_gc_memory_all_idle [OF idle]
  show ?thesis
  proof (cases st)
    case (Inl e)
    with r try_consume_error_idle [OF _ pos gi] show ?thesis by simp
  next
    case (Inr u)
    with r have r': "try_consume (try_gc_memory E) E n bytes m = Some (Inr u, m')" by simp
    note c = try_consume_ok_charged [OF r' pos]
    from t d have "t \<in> set (rev (all_ancestors (trackers E n)))"
      "distinct (rev (all_ancestors (trackers E n)))" by simp_all
    from charged_idle_fits [OF c gi this en] have f: "fits E t bytes m" .
    from charged_idle [OF c gi] t d
    have "consumption m' t = consumption m t + bytes"
      by (simp add: consumption_fold_add count_list_distinct)
    with r Inr f show ?thesis by simp
  qed
qed

lemma try_consume_seq_bounded:
  assumes "t \<in> set (all_ancestors (trackers E n))"
    and "distinct (all_ancestors (trackers E n))"
    and "enforced E t"
    and "\<forall>u. \<forall>f\<in>set (gc_functions (trackers E u)). \<forall>b x. f b x = x"
  shows "\<forall>b\<in>set bs. 0 < sint b \<Longrightarrow>
     \<exists>sts m'. try_consume_seq (try_gc_memory E) E n bs m = Some (sts, m')
        \<and> (sint (consumption m t) \<le> sint (limit (trackers E t))
              \<longrightarrow> sint (consumption m' t) \<le> sint (limit (trackers E t)))"
proof (induction bs arbitrary: m)
  case Nil
  show ?case by simp
next
  case (Cons b bs)
  then have b: "0 < sint b" and rest: "\<forall>b\<in>set bs. 0 < sint b" by simp_all
  from try_consume_enforced_call [OF assms b, of m] obtain st m1 where
    one: "try_consume (try_gc_memory E) E n b m = Some (st, m1)"
      "isl st \<longrightarrow> m1 = m"
      "\<not> isl st \<longrightarrow> fits E t b m \<and> consumption m1 t = consumption m t + b"
    by blast
  have keep: "sint (consumption m t) \<le> sint (limit (trackers E t))
      \<longrightarrow> sint (consumption m1 t) \<le> sint (limit (trackers E t))"
    using one(2,3) by (cases "isl st") (auto simp: fits_def current_value_def)
  from Cons.IH [OF rest, of m1] obtain sts m' where
    ih: "try_consume_seq (try_gc_memory E) E n bs m1 = Some (sts, m')"
      "sint (consumption m1 t) \<le> sint (limit (trackers E t))
              \<longrightarrow> sint (consumption m' t) \<le> sint (limit (trackers E t))"
    by blast
  from one(1) ih(1) have "try_consume_seq (try_gc_memory E) E n (b # bs) m = Some (st # sts, m')"
    by simp
  with keep ih(2) show ?case by blast
qed

lemma try_consume_seq_limit_outcomes:
  assumes "t \<in> set (all_ancestors (trackers E n))"
    and "distinct (all_ancestors (trackers E n))"
    and "enforced E t"
    and "\<forall>u\<in>set (all_ancestors (trackers E n)). u \<noteq> t \<longrightarrow> \<not> enforced E u"
    and "\<forall>f\<in>set (gc_functions (trackers E t)). \<forall>b x. f b x = x"
  shows "\<forall>b\<in>set bs. 0 < sint b \<and> sint (vm_rss E + b) < sint (mem_limit E) \<Longrightarrow>
     \<exists>sts m'. try_consume_seq (try_gc_memory E) E n bs m = Some (sts, m')
           \<and> map (Not \<circ> isl) sts = fst (limit_outcomes (limit (trackers E t)) (consumption m t) bs)
           \<and> consumption m' t = snd (limit_outcomes (limit (trackers E t)) (consumption m t) bs)"
proof (induction bs arbitrary: m)
  case Nil
  show ?case by simp
next
  case (Cons b bs)
  from Cons.prems have b: "0 < sint b" "sint (vm_rss E + b) < sint (mem_limit E)"
    and rest: "\<forall>b\<in>set bs. 0 < sint b \<and> sint (vm_rss E + b) < sint (mem_limit E)"
    by simp_all
  note one = try_consume_single_limit [OF assms b, of m]
  show ?case
  proof (cases "sint (consumption m t + b) < sint (limit (trackers E t))")
    case True
    define m1 where "m1 = fold (\<lambda>u. add u b) (rev (all_ancestors (trackers E n))) m"
    from True one have r: "try_consume (try_gc_memory E) E n b m = Some (Inr (), m1)"
      by (simp add: m1_def)
    have c: "consumption m1 t = consumption m t + b"
      using assms(1,2) by (simp add: m1_def consumption_fold_add count_list_distinct)
    from Cons.IH [OF rest, of m1] obtain sts m' where
      ih: "try_consume_seq (try_gc_memory E) E n bs m1 = Some (sts, m')"
        "map (Not \<circ> isl) sts = fst (limit_outcomes (limit (trackers E t)) (consumption m1 t) bs)"
        "consumption m' t = snd (limit_outcomes (limit (trackers E t)) (consumption m1 t) bs)"
      by blast
    with r c True
    have "try_consume_seq (try_gc_memory E) E n (b # bs) m = Some (Inr () # sts, m')
           \<and> map (Not \<circ> isl) (Inr () # sts)
               = fst (limit_outcomes (limit (trackers E t)) (consumption m t) (b # bs))
           \<and> consumption m' t = snd (limit_outcomes (limit (trackers E t)) (consumption m t) (b # bs))"
      by simp
    then show ?thesis by blast
  next
    case False
    define e where "e = TrackerLimitExceeded (label (trackers E t)) (limit (trackers E t))
                       (consumption m t) b"
    from False one have r: "try_consume (try_gc_memory E) E n b m = Some (Inl e, m)"
      by (simp add: e_def)
    from Cons.IH [OF rest, of m] obtain sts m' where
      ih: "try_consume_seq (try_gc_memory E) E n bs m = Some (sts, m')"
        "map (Not \<circ> isl) sts = fst (limit_outcomes (limit (trackers E t)) (consumption m t) bs)"
        "consumption m' t = snd (limit_outcomes (limit (trackers E t)) (consumption m t) bs)"
      by blast
    with r False
    have "try_consume_seq (try_gc_memory E) E n (b # bs) m = Some (Inl e # sts, m')
           \<and> map (Not \<circ> isl) (Inl e # sts)
               = fst (limit_outcomes (limit (trackers E t)) (consumption m t) (b # bs))
           \<and> consumption m' t = snd (limit_outcomes (limit (trackers E t)) (consumption m t) (b # bs))"
      by simp
    then show ?thesis by blast
  qed
qed

text \<open>
  C5, as the code has it. Let \<open>t\<close> be an enforced tracker (limit \<open>L \<ge> 0\<close> and a label
  other than \<^verbatim>\<open>"Process"\<close>) of the caller's chain, a chain without repetition, and let
  no registered callback free anything. Every \<^verbatim>\<open>try_consume(b)\<close> with \<open>b > 0\<close> returns; a
  call that fails leaves the store as it was; a call that succeeds found consumption
  plus \<open>b\<close> below \<open>L\<close> and added \<open>b\<close>: so a request that would reach \<open>L\<close> fails,
  every time it is made. After any sequence of such calls, consumption that was at most
  \<open>L\<close> before is at most \<open>L\<close>. When \<open>t\<close> is the only enforced tracker of the chain
  and every request passes \<^verbatim>\<open>check_sys_mem_info\<close>, the calls that succeed and the final
  consumption are exactly those of \<open>limit_outcomes\<close>: a request succeeds as long as the
  resulting consumption stays below \<open>L\<close>.
\<close>

theorem limit_monotonicity:
  assumes "t \<in> set (all_ancestors (trackers E n))"
    and "distinct (all_ancestors (trackers E n))"
    and "enforced E t"
    and "\<forall>u. \<forall>f\<in>set (gc_functions (trackers E u)). \<forall>b x. f b x = x"
    and "\<forall>b\<in>set bs. 0 < sint b"
  shows "(\<forall>b m0. 0 < sint b \<longrightarrow>
            (\<exists>st m1. try_consume (try_gc_memory E) E n b m0 = Some (st, m1)
               \<and> (isl st \<longrightarrow> m1 = m0)
               \<and> (\<not> isl st \<longrightarrow> sint (consumption m0 t + b) < sint (limit (trackers E t))
                                \<and> consumption m1 t = consumption m0 t + b)))
       \<and> (\<exists>sts m'. try_consume_seq (try_gc_memory E) E n bs m = Some (sts, m')
            \<and> (sint (consumption m t) \<le> sint (limit (trackers E t))
                  \<longrightarrow> sint (consumption m' t) \<le> sint (limit (trackers E t)))
            \<and> ((\<forall>u\<in>set (all_ancestors (trackers E n)). u \<noteq> t \<longrightarrow> \<not> enforced E u)
                \<and> (\<forall>b\<in>set bs. sint (vm_rss E + b) < sint (mem_limit E))
                \<longrightarrow> map (Not \<circ> isl) sts
                      = fst (limit_outcomes (limit (trackers E t)) (consumption m t) bs)
                  \<and> consumption m' t
                      = snd (limit_outcomes (limit (trackers E t)) (consumption m t) bs)))"
proof
  show "\<forall>b m0. 0 < sint b \<longrightarrow>
            (\<exists>st m1. try_consume (try_gc_memory E) E n b m0 = Some (st, m1)
               \<and> (isl st \<longrightarrow> m1 = m0)
               \<and> (\<not> isl st \<longrightarrow> sint (consumption m0 t + b) < sint (limit (trackers E t))
                                \<and> consumption m1 t = consumption m0 t + b))"
    using try_consume_enforced_call [OF assms(1-4)]
    by (simp add: fits_def current_value_def)
  from try_consume_seq_bounded [OF assms(1-4) assms(5), of m] obtain sts m' where
    s: "try_consume_seq (try_gc_memory E) E n bs m = Some (sts, m')"
       "sint (consumption m t) \<le> sint (limit (trackers E t))
              \<longrightarrow> sint (consumption m' t) \<le> sint (limit (trackers E t))"
    by blast
  have "map (Not \<circ> isl) sts = fst (limit_outcomes (limit (trackers E t)) (consumption m t) bs)
        \<and> consumption m' t = snd (limit_outcomes (limit (trackers E t)) (consumption m t) bs)"
    if only: "\<forall>u\<in>set (all_ancestors (trackers E n)). u \<noteq> t \<longrightarrow> \<not> enforced E u"
      and sys: "\<forall>b\<in>set bs. sint (vm_rss E + b) < sint (mem_limit E)"
  proof -
    from assms(4) have "\<forall>f\<in>set (gc_functions (trackers E t)). \<forall>b x. f b x = x" by blast
    moreover from assms(5) sys
    have "\<forall>b\<in>set bs. 0 < sint b \<and> sint (vm_rss E + b) < sint (mem_limit E)" by blast
    ultimately show ?thesis
      using try_consume_seq_limit_outcomes [OF assms(1-3) only, of bs m] s(1) by auto
  qed
  with s show "\<exists>sts m'. try_consume_seq (try_gc_memory E) E n bs m = Some (sts, m')
            \<and> (sint (consumption m t) \<le> sint (limit (trackers E t))
                  \<longrightarrow> sint (consumption m' t) \<le> sint (limit (trackers E t)))
            \<and> ((\<forall>u\<in>set (all_ancestors (trackers E n)). u \<noteq> t \<longrightarrow> \<not> enforced E u)
                \<and> (\<forall>b\<in>set bs. sint (vm_rss E + b) < sint (mem_limit E))
                \<longrightarrow> map (Not \<circ> isl) sts
                      = fst (limit_outcomes (limit (trackers E t)) (consumption m t) bs)
                  \<and> consumption m' t
                      = snd (limit_outcomes (limit (trackers E t)) (consumption m t) bs))"
    by blast
qed

theorem limit_monotonicity_witness:
  "1 \<in> set (all_ancestors (trackers example_env 2))
   \<and> distinct (all_ancestors (trackers example_env 2))
   \<and> enforced example_env 1
   \<and> (\<exists>sts m'. try_consume_seq (try_gc_memory example_env) example_env 2 [600, 500, 300, 200] zero_mem
                  = Some (sts, m')
          \<and> map (Not \<circ> isl) sts = [True, False, True, False]
          \<and> consumption m' 1 = 900
          \<and> sint (consumption m' 1) \<le> sint (limit (trackers example_env 1)))"
proof -
  have h: "1 \<in> set (all_ancestors (trackers example_env 2))"
    "distinct (all_ancestors (trackers example_env 2))"
    "enforced example_env 1"
    "\<forall>u. \<forall>f\<in>set (gc_functions (trackers example_env u)). \<forall>b x. f b x = x"
    "\<forall>b\<in>set [600, 500, 300, 200 :: int64]. 0 < sint b"
    by (simp_all add: example_defs enforced_def)
  have only: "\<forall>u\<in>set (all_ancestors (trackers example_env 2)). u \<noteq> 1 \<longrightarrow> \<not> enforced example_env u"
    and sys: "\<forall>b\<in>set [600, 500, 300, 200 :: int64].
        sint (vm_rss example_env + b) < sint (mem_limit example_env)"
    and start: "sint (consumption zero_mem 1) \<le> sint (limit (trackers example_env 1))"
    by (simp_all add: example_defs enforced_def)
  from limit_monotonicity [OF h, of zero_mem] only sys start obtain sts m' where
    "try_consume_seq (try_gc_memory example_env) example_env 2 [600, 500, 300, 200] zero_mem
        = Some (sts, m')"
    "sint (consumption m' 1) \<le> sint (limit (trackers example_env 1))"
    "map (Not \<circ> isl) sts
        = fst (limit_outcomes (limit (trackers example_env 1)) (consumption zero_mem 1)
                 [600, 500, 300, 200])"
    "consumption m' 1
        = snd (limit_outcomes (limit (trackers example_env 1)) (consumption zero_mem 1)
                 [600, 500, 300, 200])"
    by blast
  then have "try_consume_seq (try_gc_memory example_env) example_env 2 [600, 500, 300, 200] zero_mem
                  = Some (sts, m')
          \<and> map (Not \<circ> isl) sts = [True, False, True, False]
          \<and> consumption m' 1 = 900
          \<and> sint (consumption m' 1) \<le> sint (limit (trackers example_env 1))"
    by (simp add: example_defs)
  then have "\<exists>sts m'. try_consume_seq (try_gc_memory example_env) example_env 2 [600, 500, 300, 200] zero_mem
                  = Some (sts, m')
          \<and> map (Not \<circ> isl) sts = [True, False, True, False]
          \<and> consumption m' 1 = 900
          \<and> sint (consumption m' 1) \<le> sint (limit (trackers example_env 1))"
    by (intro exI)
  with h(1-3) show ?thesis by (intro conjI)
qed

text \<open>
  C5 as stated fails for a tracker labelled \<^verbatim>\<open>"Process"\<close>: with a limit of 1000 on the
  process root and no callback, \<^verbatim>\<open>try_consume(2000)\<close> succeeds and leaves its consumption
  at 2000.
\<close>

theorem process_label_limit_exceeded:
  "0 \<le> sint (limit (trackers capped_process_env 0))
   \<and> gc_functions (trackers capped_process_env 0) = []
   \<and> \<not> (\<forall>sts m'. try_consume_seq (try_gc_memory capped_process_env) capped_process_env 0 [2000] zero_mem
                      = Some (sts, m')
            \<longrightarrow> sint (consumption m' 0) \<le> sint (limit (trackers capped_process_env 0)))"
proof -
  have "try_consume_seq (try_gc_memory capped_process_env) capped_process_env 0 [2000] zero_mem
          = Some ([Inr ()], add 0 2000 zero_mem)"
    by (simp add: try_consume_def check_sys_mem_info_def capped_process_env_def example_defs)
  moreover have "\<not> sint (consumption (add 0 2000 zero_mem) 0) \<le> sint (limit (trackers capped_process_env 0))"
    by (simp add: add_def capped_process_env_def example_defs)
  ultimately show ?thesis
    by (simp add: capped_process_env_def example_defs)
qed

section \<open>The walk of \<^verbatim>\<open>check_limit\<close>\<close>





lemma checked_idle:
  "checked gc E bytes ts m m' \<Longrightarrow> \<forall>u b x. snd (gc u b x) = x \<Longrightarrow>
   m' = m \<and> (\<forall>t\<in>set ts. fits E t bytes m)"
proof (induction rule: checked.induct)
  case (checked_none m)
  then show ?case by simp
next
  case (checked_next t m m1 ts m2)
  from gc_retries_idle [OF checked_next.hyps(1) checked_next.prems] have "m1 = m" .
  with checked_next.IH checked_next.prems checked_next.hyps(2) show ?case by simp
qed



section \<open>Exempt trackers\<close>

lemma try_add_loop_limit_le:
  assumes "try_add_loop gc E t bytes m = Some y"
  shows "\<forall>E' :: env. limit (trackers E' t) = limit (trackers E t) \<longrightarrow> try_add_loop gc E' t bytes m = Some y"
proof (rule try_add_loop.raw_induct
    [where P = "\<lambda>gc E t bytes m y.
       \<forall>E' :: env. limit (trackers E' t) = limit (trackers E t) \<longrightarrow>
         try_add_loop gc E' t bytes m = Some y",
     OF _ assms])
  fix loop :: "try_gc \<Rightarrow> env \<Rightarrow> tracker_id \<Rightarrow> int64 \<Rightarrow> mem \<Rightarrow> (status \<times> mem) option"
    and gc E t bytes m y
  assume IH: "\<And>gc E t bytes m y. loop gc E t bytes m = Some y \<Longrightarrow>
     \<forall>E' :: env. limit (trackers E' t) = limit (trackers E t) \<longrightarrow>
       try_add_loop gc E' t bytes m = Some y"
  assume eq: "(case try_add t bytes (limit (trackers E t)) m of
      None \<Rightarrow>
        (case gc t bytes m of (Inl st, m1) \<Rightarrow> Some (Inl st, m1)
        | (Inr x, m1) \<Rightarrow> loop gc E t bytes m1)
      | Some m' \<Rightarrow> Some (Inr (), m')) = Some y"
  show "\<forall>E' :: env. limit (trackers E' t) = limit (trackers E t) \<longrightarrow>
          try_add_loop gc E' t bytes m = Some y"
  proof (intro allI impI)
    fix E' :: env
    assume same: "limit (trackers E' t) = limit (trackers E t)"
    show "try_add_loop gc E' t bytes m = Some y"
    proof (cases "try_add t bytes (limit (trackers E t)) m")
      case (Some m')
      with eq have "y = (Inr (), m')" by simp
      with Some same show ?thesis by (subst try_add_loop.simps) simp
    next
      case None
      obtain st m1 where g: "gc t bytes m = (st, m1)" by (cases "gc t bytes m")
      show ?thesis
      proof (cases st)
        case (Inl e)
        with eq None g have "y = (Inl e, m1)" by simp
        with None g Inl same show ?thesis by (subst try_add_loop.simps) simp
      next
        case (Inr u)
        with eq None g have "loop gc E t bytes m1 = Some y" by simp
        from IH [OF this] same have "try_add_loop gc E' t bytes m1 = Some y" by blast
        with None g Inr same show ?thesis by (subst try_add_loop.simps) simp
      qed
    qed
  qed
qed

lemma try_add_loop_limit_cong:
  assumes "limit (trackers E' t) = limit (trackers E t)"
  shows "try_add_loop gc E' t bytes m = try_add_loop gc E t bytes m"
proof (cases "try_add_loop gc E t bytes m")
  case (Some y)
  with try_add_loop_limit_le [OF Some] assms show ?thesis by simp
next
  case None
  show ?thesis
  proof (cases "try_add_loop gc E' t bytes m")
    case None': None
    with None show ?thesis by simp
  next
    case (Some y)
    from try_add_loop_limit_le [OF Some] assms have "try_add_loop gc E t bytes m = Some y" by simp
    with None show ?thesis by simp
  qed
qed

lemma try_consume_walk_cong:
  assumes "\<forall>i<k. enforced E' (anc ! i) = enforced E (anc ! i)"
    and "\<forall>i<k. enforced E (anc ! i) \<longrightarrow> limit (trackers E' (anc ! i)) = limit (trackers E (anc ! i))"
  shows "try_consume_walk gc E' anc bytes k m = try_consume_walk gc E anc bytes k m"
  using assms
proof (induction k arbitrary: m)
  case 0
  show ?case by simp
next
  case (Suc k)
  from Suc.prems have "try_consume_walk gc E' anc bytes k m1 = try_consume_walk gc E anc bytes k m1" for m1
    by (intro Suc.IH) simp_all
  then have ih: "try_consume_walk gc E' anc bytes k = try_consume_walk gc E anc bytes k"
    by (rule ext)
  from Suc.prems(1) have e: "enforced E' (anc ! k) = enforced E (anc ! k)" by simp
  show ?case
  proof (cases "enforced E (anc ! k)")
    case False
    with e have ne: "\<not> enforced E' (anc ! k)" by simp
    show ?thesis
      unfolding try_consume_walk_exempt [OF False] try_consume_walk_exempt [OF ne] ih ..
  next
    case True
    with e have te: "enforced E' (anc ! k)" by simp
    from True Suc.prems(2) have "limit (trackers E' (anc ! k)) = limit (trackers E (anc ! k))" by simp
    from try_add_loop_limit_cong [OF this]
    have l: "try_add_loop gc E' (anc ! k) bytes m = try_add_loop gc E (anc ! k) bytes m" .
    show ?thesis
      unfolding try_consume_walk_enforced [OF True] try_consume_walk_enforced [OF te] ih l ..
  qed
qed

lemma cache_consume_walk_takeWhile:
  "cache_consume_walk E ts bytes m =
     fold (\<lambda>t. add t bytes) (takeWhile (\<lambda>t. label (trackers E t) \<noteq> ''Process'') ts) m"
  by (induction ts arbitrary: m) simp_all

lemma try_consume_walk_fits:
  "enforced E (anc ! k) \<Longrightarrow> fits E (anc ! k) bytes m \<Longrightarrow>
   try_consume_walk gc E anc bytes (Suc k) m =
     try_consume_walk gc E anc bytes k (add (anc ! k) bytes m)"
  unfolding try_consume_walk_enforced
  by (subst try_add_loop.simps) (simp add: try_add_fits)

lemma try_consume_walk_gc:
  "enforced E (anc ! k) \<Longrightarrow> \<not> fits E (anc ! k) bytes m \<Longrightarrow>
   try_consume_walk gc E anc bytes (Suc k) m =
     (case gc (anc ! k) bytes m of
        (Inl st, m1) \<Rightarrow> Some (Inl st, rollback anc bytes k m1)
      | (Inr u, m1) \<Rightarrow> try_consume_walk gc E anc bytes (Suc k) m1)"
  unfolding try_consume_walk_enforced
  by (subst try_add_loop.simps) (simp add: try_add_fits split: prod.splits sum.splits)

lemma try_consume_limit_irrelevant:
  assumes "label (trackers E t) = ''Process''"
  shows "try_consume gc (E\<lparr>trackers := (trackers E)(t := (trackers E t)\<lparr>limit := L\<rparr>)\<rparr>) n bytes m
       = try_consume gc E n bytes m"
proof -
  define E' where "E' = E\<lparr>trackers := (trackers E)(t := (trackers E t)\<lparr>limit := L\<rparr>)\<rparr>"
  have anc: "all_ancestors (trackers E' u) = all_ancestors (trackers E u)" for u
    by (simp add: E'_def)
  have en: "enforced E' u = enforced E u" for u
    using assms by (simp add: E'_def enforced_def)
  have lim: "enforced E u \<Longrightarrow> limit (trackers E' u) = limit (trackers E u)" for u
    using assms by (auto simp: E'_def enforced_def)
  have w: "try_consume_walk gc E' a bytes k m = try_consume_walk gc E a bytes k m" for a k
    by (rule try_consume_walk_cong) (simp_all add: en lim)
  have sys: "check_sys_mem_info E' bytes = check_sys_mem_info E bytes"
    by (simp add: E'_def check_sys_mem_info_def)
  have rel: "release E' n (- bytes) m = release E n (- bytes) m"
    by (simp add: release_def consume_def anc)
  show ?thesis
    unfolding E'_def [symmetric] try_consume_def sys rel anc w ..
qed

text \<open>
  C9. A tracker is enforced exactly when neither its limit is negative nor its label is
  \<^verbatim>\<open>"Process"\<close>. At a tracker that is not enforced the walk of \<^verbatim>\<open>try_consume\<close> adds
  \<open>bytes\<close> and goes on, whatever the counter and the limit are. At an enforced tracker
  it does the same when the request fits, and otherwise turns to \<^verbatim>\<open>try_gc_memory\<close>: an
  error rolls back and ends the call, OK repeats the test. Replacing the limit of a
  tracker labelled \<^verbatim>\<open>"Process"\<close>, root or not, by any value changes no result of
  \<^verbatim>\<open>try_consume\<close>. In \<^verbatim>\<open>cache_consume_local\<close> a flush adds the call's \<open>bytes\<close> to the
  trackers of the chain that come before the first one labelled \<^verbatim>\<open>"Process"\<close>.
\<close>

theorem process_label_exempts:
  "enforced E t = (\<not> (sint (limit (trackers E t)) < 0 \<or> label (trackers E t) = ''Process''))
   \<and> (\<not> enforced E (anc ! k) \<longrightarrow>
        try_consume_walk gc E anc bytes (Suc k) m =
          try_consume_walk gc E anc bytes k (add (anc ! k) bytes m))
   \<and> (enforced E (anc ! k) \<and> fits E (anc ! k) bytes m \<longrightarrow>
        try_consume_walk gc E anc bytes (Suc k) m =
          try_consume_walk gc E anc bytes k (add (anc ! k) bytes m))
   \<and> (enforced E (anc ! k) \<and> \<not> fits E (anc ! k) bytes m \<longrightarrow>
        try_consume_walk gc E anc bytes (Suc k) m =
          (case gc (anc ! k) bytes m of
             (Inl st, m1) \<Rightarrow> Some (Inl st, rollback anc bytes k m1)
           | (Inr u, m1) \<Rightarrow> try_consume_walk gc E anc bytes (Suc k) m1))
   \<and> (label (trackers E t) = ''Process'' \<longrightarrow>
        try_consume gc (E\<lparr>trackers := (trackers E)(t := (trackers E t)\<lparr>limit := L\<rparr>)\<rparr>) n bytes m
          = try_consume gc E n bytes m)
   \<and> cache_consume_local E n bytes m =
        (if bytes = 0 then m
         else if fst (add_untracked_mem E n bytes m) \<noteq> 0
         then fold (\<lambda>u. add u bytes)
                (takeWhile (\<lambda>u. label (trackers E u) \<noteq> ''Process'') (all_ancestors (trackers E n)))
                (snd (add_untracked_mem E n bytes m))
         else snd (add_untracked_mem E n bytes m))"
proof (intro conjI impI)
  show "enforced E t = (\<not> (sint (limit (trackers E t)) < 0 \<or> label (trackers E t) = ''Process''))"
    by (simp add: enforced_def)
  show "try_consume_walk gc E anc bytes (Suc k) m =
          try_consume_walk gc E anc bytes k (add (anc ! k) bytes m)"
    if "\<not> enforced E (anc ! k)"
    using that by (rule try_consume_walk_exempt)
  show "try_consume_walk gc E anc bytes (Suc k) m =
          try_consume_walk gc E anc bytes k (add (anc ! k) bytes m)"
    if "enforced E (anc ! k) \<and> fits E (anc ! k) bytes m"
    using that try_consume_walk_fits [of E anc k bytes m gc] by blast
  show "try_consume_walk gc E anc bytes (Suc k) m =
          (case gc (anc ! k) bytes m of
             (Inl st, m1) \<Rightarrow> Some (Inl st, rollback anc bytes k m1)
           | (Inr u, m1) \<Rightarrow> try_consume_walk gc E anc bytes (Suc k) m1)"
    if "enforced E (anc ! k) \<and> \<not> fits E (anc ! k) bytes m"
    using that try_consume_walk_gc [of E anc k bytes m gc] by blast
  show "try_consume gc (E\<lparr>trackers := (trackers E)(t := (trackers E t)\<lparr>limit := L\<rparr>)\<rparr>) n bytes m
          = try_consume gc E n bytes m"
    if "label (trackers E t) = ''Process''"
    using that by (rule try_consume_limit_irrelevant)
  show "cache_consume_local E n bytes m =
        (if bytes = 0 then m
         else if fst (add_untracked_mem E n bytes m) \<noteq> 0
         then fold (\<lambda>u. add u bytes)
                (takeWhile (\<lambda>u. label (trackers E u) \<noteq> ''Process'') (all_ancestors (trackers E n)))
                (snd (add_untracked_mem E n bytes m))
         else snd (add_untracked_mem E n bytes m))"
    by (simp add: cache_consume_local_def cache_consume_walk_takeWhile split: prod.splits)
qed

theorem process_label_exempts_witness:
  "label (trackers process_query_env 1) = ''Process''
   \<and> limit (trackers process_query_env 1) = 1000
   \<and> 0 < sint (5000 :: int64)
   \<and> try_consume (try_gc_memory process_query_env)
        (process_query_env\<lparr>trackers := (trackers process_query_env)
            (1 := (trackers process_query_env 1)\<lparr>limit := 0\<rparr>)\<rparr>) 2 5000 zero_mem
      = Some (Inr (), add 2 5000 (add 1 5000 (add 0 5000 zero_mem)))
   \<and> consumption (add 2 5000 (add 1 5000 (add 0 5000 zero_mem))) 1 = 5000
   \<and> map (consumption (cache_consume_local process_query_env 2 150 zero_mem)) [0, 1, 2] = [0, 0, 150]"
proof -
  have l: "label (trackers process_query_env 1) = ''Process''"
    by (simp add: process_query_env_def example_defs)
  have r: "try_consume (try_gc_memory process_query_env) process_query_env 2 5000 zero_mem
      = Some (Inr (), add 2 5000 (add 1 5000 (add 0 5000 zero_mem)))"
    by (simp add: try_consume_def check_sys_mem_info_def process_query_env_def example_defs)
  have c: "map (consumption (cache_consume_local process_query_env 2 150 zero_mem)) [0, 1, 2] = [0, 0, 150]"
    by (simp add: cache_consume_local_def add_untracked_mem_def abs64_def add_def
        process_query_env_def example_defs)
  from process_label_exempts [where E = process_query_env and t = 1 and L = 0 and n = 2
      and gc = "try_gc_memory process_query_env" and bytes = 5000 and m = zero_mem
      and anc = "[]" and k = 0] l
  have "try_consume (try_gc_memory process_query_env)
        (process_query_env\<lparr>trackers := (trackers process_query_env)
            (1 := (trackers process_query_env 1)\<lparr>limit := 0\<rparr>)\<rparr>) 2 5000 zero_mem
      = try_consume (try_gc_memory process_query_env) process_query_env 2 5000 zero_mem"
    by blast
  with r have "try_consume (try_gc_memory process_query_env)
        (process_query_env\<lparr>trackers := (trackers process_query_env)
            (1 := (trackers process_query_env 1)\<lparr>limit := 0\<rparr>)\<rparr>) 2 5000 zero_mem
      = Some (Inr (), add 2 5000 (add 1 5000 (add 0 5000 zero_mem)))"
    by simp
  moreover have "limit (trackers process_query_env 1) = 1000"
    by (simp add: process_query_env_def example_defs)
  moreover have "consumption (add 2 5000 (add 1 5000 (add 0 5000 zero_mem))) 1 = 5000"
    by (simp add: add_def zero_mem_def)
  ultimately show ?thesis using l c by simp
qed

end
